theory Spec2Isabelle
  imports Complex_Main "HOL-Library.Sublist"
begin

section \<open>Strings\<close>

text \<open>
  A JavaScript string is a sequence of UTF-16 code units, here integers. The
  subject of a message and the keywords are such strings, because the code lower-cases,
  trims and searches them; \<open>js\<close> turns an ASCII literal into one. The other text fields
  are only compared and tested for emptiness.

  \<^verbatim>\<open>String.prototype.toLowerCase\<close> belongs to the runtime and follows the Unicode case
  tables: it is the argument \<open>toLowerCase\<close> of every function that calls it.
  \<^verbatim>\<open>String.prototype.trim\<close> strips, from both ends, the code points ECMAScript lists as
  white space and line terminators: U+0009 to U+000D, U+0020, U+00A0, U+1680, U+2000 to
  U+200A, U+2028, U+2029, U+202F, U+205F, U+3000 and U+FEFF, each a single code unit.
\<close>

type_synonym jsstring = "int list"

definition js :: "string \<Rightarrow> jsstring" where
  "js s = map of_char s"

definition isWhiteSpace :: "int \<Rightarrow> bool" where
  "isWhiteSpace c =
     ((9 \<le> c \<and> c \<le> 13) \<or> c = 32 \<or> c = 160 \<or> c = 5760 \<or> (8192 \<le> c \<and> c \<le> 8202)
      \<or> c = 8232 \<or> c = 8233 \<or> c = 8239 \<or> c = 8287 \<or> c = 12288 \<or> c = 65279)"

definition trim :: "jsstring \<Rightarrow> jsstring" where
  "trim s = rev (dropWhile isWhiteSpace (rev (dropWhile isWhiteSpace s)))"

text \<open>\<^verbatim>\<open>s.startsWith(p)\<close> is \<open>prefix p s\<close> and \<^verbatim>\<open>s.includes(k)\<close> is \<open>sublist k s\<close>.
  The regular expression \<^verbatim>\<open>/^(re:|fwd?:|fw:)/\<close>, alternative by alternative:\<close>

definition matchesReplyOrForward :: "jsstring \<Rightarrow> bool" where
  "matchesReplyOrForward s =
     (prefix (js ''re:'') s \<or> (prefix (js ''fwd:'') s \<or> prefix (js ''fw:'') s)
      \<or> prefix (js ''fw:'') s)"

section \<open>Data model\<close>

text \<open>
  The record built by \<^verbatim>\<open>GmailClient.getEmailDetails\<close>. The header fields \<^verbatim>\<open>from\<close>,
  \<^verbatim>\<open>to\<close>, \<^verbatim>\<open>subject\<close> and \<^verbatim>\<open>date\<close> are set only when the header is present, and
  \<^verbatim>\<open>thread_id\<close> is whatever the provider sent, so they are optional. The fields
  \<^verbatim>\<open>id\<close>, \<^verbatim>\<open>from\<close> and \<^verbatim>\<open>to\<close> carry a prefix because the bare names are taken.
\<close>

record email =
  msg_id :: string
  thread_id :: "string option"
  snippet :: string
  internal_date :: "int option"
  msg_from :: "string option"
  msg_to :: "string option"
  subject :: "jsstring option"
  date :: "string option"
  body :: string

text \<open>JavaScript's \<^verbatim>\<open>x || ''\<close> on an optional string, and \<^verbatim>\<open>parseInt(x || 0)\<close> on an
  optional timestamp (0 is falsy as well, and parses to 0).\<close>

definition or_empty :: "'a list option \<Rightarrow> 'a list" where
  "or_empty s = (case s of None \<Rightarrow> [] | Some t \<Rightarrow> t)"

definition parse_date :: "int option \<Rightarrow> int" where
  "parse_date d = (case d of None \<Rightarrow> 0 | Some n \<Rightarrow> n)"

section \<open>Age Evaluator\<close>

text \<open>
  \<^verbatim>\<open>getEmailAgeHours(email)\<close>: the clock reading \<open>now\<close> (epoch milliseconds) is an
  argument. The quotient is taken in the reals; the source computes it in double
  precision.
\<close>

definition getEmailAgeHours :: "int \<Rightarrow> email \<Rightarrow> real" where
  "getEmailAgeHours now e =
     (let internalDate = parse_date (internal_date e)
      in if internalDate = 0 then 0
         else real_of_int (now - internalDate) / (1000 * 60 * 60))"

section \<open>Lookback window\<close>

text \<open>\<^verbatim>\<open>Math.max(7, Math.ceil(REPLY_TIMEOUT_HOURS / 24) + 1)\<close> in \<^verbatim>\<open>runOnce\<close>.\<close>

definition daysBack :: "int \<Rightarrow> int" where
  "daysBack replyTimeoutHours = max 7 (\<lceil>real_of_int replyTimeoutHours / 24\<rceil> + 1)"

section \<open>Message Store Adapter\<close>

text \<open>
  The provider is a record of the three calls the client makes; \<open>None\<close> is a call that
  throws. \<open>messages_list\<close> answers the search query built from the keyword list and the
  lookback window (the query text is not modelled, the window is its argument),
  \<open>messages_get\<close> answers with the record \<^verbatim>\<open>getEmailDetails\<close> extracts from the headers,
  \<open>threads_get\<close> with \<^verbatim>\<open>thread.messages || []\<close>.
\<close>

record thread_message =
  tm_id :: string
  internalDate :: "int option"

record mailbox =
  messages_list :: "int \<Rightarrow> string list option"
  messages_get :: "string \<Rightarrow> email option"
  threads_get :: "string \<Rightarrow> thread_message list option"

definition getEmailDetails :: "mailbox \<Rightarrow> string \<Rightarrow> email option" where
  "getEmailDetails mb messageId =
     (case messages_get mb messageId of
        None \<Rightarrow> None
      | Some emailData \<Rightarrow> Some (emailData\<lparr>msg_id := messageId\<rparr>))"

fun collectDetails :: "mailbox \<Rightarrow> string list \<Rightarrow> email list" where
  "collectDetails mb [] = []"
| "collectDetails mb (i # ids) =
     (case getEmailDetails mb i of
        None \<Rightarrow> collectDetails mb ids
      | Some emailData \<Rightarrow> emailData # collectDetails mb ids)"

definition searchEmails :: "mailbox \<Rightarrow> int \<Rightarrow> email list" where
  "searchEmails mb window =
     (case messages_list mb window of
        None \<Rightarrow> []
      | Some ids \<Rightarrow> collectDetails mb ids)"

section \<open>Leave-Request Classifier\<close>

text \<open>The body of the filtering loop of \<^verbatim>\<open>findLeaveRequests\<close>, for one message, and
  the loop.\<close>

definition isLeaveRequest :: "(jsstring \<Rightarrow> jsstring) \<Rightarrow> jsstring list \<Rightarrow> email \<Rightarrow> bool" where
  "isLeaveRequest toLowerCase keywords e =
     (let subjectLower = trim (toLowerCase (or_empty (subject e)))
      in if matchesReplyOrForward subjectLower then False
         else list_ex (\<lambda>keyword. sublist (toLowerCase keyword) subjectLower) keywords)"

fun classify :: "(jsstring \<Rightarrow> jsstring) \<Rightarrow> jsstring list \<Rightarrow> email list \<Rightarrow> email list" where
  "classify toLowerCase keywords [] = []"
| "classify toLowerCase keywords (e # emails) =
     (if isLeaveRequest toLowerCase keywords e then e # classify toLowerCase keywords emails
      else classify toLowerCase keywords emails)"

definition findLeaveRequests ::
    "(jsstring \<Rightarrow> jsstring) \<Rightarrow> mailbox \<Rightarrow> jsstring list \<Rightarrow> int \<Rightarrow> email list" where
  "findLeaveRequests toLowerCase mb keywords window =
     classify toLowerCase keywords (searchEmails mb window)"

section \<open>Reply Resolver\<close>

text \<open>The loop of \<^verbatim>\<open>checkForReply\<close> over the thread in provider order; it returns at
  the first message it accepts as a reply.\<close>

fun replyLoop :: "(jsstring \<Rightarrow> jsstring) \<Rightarrow> mailbox \<Rightarrow> email \<Rightarrow> string option \<Rightarrow> thread_message list \<Rightarrow> bool" where
  "replyLoop toLowerCase mb originalEmail originalMessageId [] = False"
| "replyLoop toLowerCase mb originalEmail originalMessageId (message # messages) =
     (if tm_id message = msg_id originalEmail \<or> Some (tm_id message) = originalMessageId
      then replyLoop toLowerCase mb originalEmail originalMessageId messages
      else if parse_date (internalDate message) > parse_date (internal_date originalEmail)
      then (case getEmailDetails mb (tm_id message) of
              None \<Rightarrow> replyLoop toLowerCase mb originalEmail originalMessageId messages
            | Some msgDetails \<Rightarrow>
                if or_empty (msg_from originalEmail) \<noteq> or_empty (msg_from msgDetails)
                   \<or> prefix (js ''re:'') (toLowerCase (or_empty (subject msgDetails)))
                then True
                else replyLoop toLowerCase mb originalEmail originalMessageId messages)
      else replyLoop toLowerCase mb originalEmail originalMessageId messages)"

text \<open>\<^verbatim>\<open>sortedMessages[0]?.id\<close>: the sort is stable, as \<^verbatim>\<open>Array.prototype.sort\<close> is.\<close>

definition firstMessageId :: "thread_message list \<Rightarrow> string option" where
  "firstMessageId messages =
     (case sort_key (\<lambda>m. parse_date (internalDate m)) messages of
        [] \<Rightarrow> None
      | firstMessage # _ \<Rightarrow> Some (tm_id firstMessage))"

definition checkForReply :: "(jsstring \<Rightarrow> jsstring) \<Rightarrow> mailbox \<Rightarrow> email \<Rightarrow> bool" where
  "checkForReply toLowerCase mb originalEmail =
     (case thread_id originalEmail of
        None \<Rightarrow> False
      | Some threadId \<Rightarrow>
          if threadId = [] then False
          else (case threads_get mb threadId of
                  None \<Rightarrow> False
                | Some messages \<Rightarrow>
                    replyLoop toLowerCase mb originalEmail (firstMessageId messages) messages))"

section \<open>Notification Dispatcher: web and desktop channels\<close>

text \<open>
  \<^verbatim>\<open>NotificationService\<close> of \<^verbatim>\<open>notificationService.js\<close>. A record keeps the type tag and
  the data payload (subject, date header, age in hours, or the count); the title, the
  message text, the time stamp and the recipient address are left out. Connected
  event-stream clients are handles. What the outside does is a \<open>backend\<close>: whether the
  desktop notifier's callback reports an error, and whether a client's \<^verbatim>\<open>write\<close> throws.
\<close>

datatype notification =
  LeaveRequestNotification jsstring string real
| SummaryNotification nat
| TestNotification

record NotificationService =
  isProduction :: bool
  webNotifications :: "notification list"
  webClients :: "nat list"

record backend =
  notifier_fails :: "notification \<Rightarrow> bool"
  write_throws :: "nat \<Rightarrow> bool"

definition sendToWebClients :: "backend \<Rightarrow> NotificationService \<Rightarrow> NotificationService" where
  "sendToWebClients b ns = ns\<lparr>webClients := filter (\<lambda>client. \<not> write_throws b client) (webClients ns)\<rparr>"

text \<open>\<^verbatim>\<open>x || 'No Subject'\<close>: an absent and an empty string both take the default.\<close>

definition or_default :: "'a list \<Rightarrow> 'a list option \<Rightarrow> 'a list" where
  "or_default d s = (case s of None \<Rightarrow> d | Some t \<Rightarrow> if t = [] then d else t)"

definition notifyPendingLeaveRequest ::
    "backend \<Rightarrow> NotificationService \<Rightarrow> email \<Rightarrow> real \<Rightarrow> bool \<times> NotificationService" where
  "notifyPendingLeaveRequest b ns request hoursOld =
     (let notification = LeaveRequestNotification
            (or_default (js ''No Subject'') (subject request))
            (or_default ''Unknown'' (date request)) hoursOld
      in if isProduction ns
         then (True, sendToWebClients b (ns\<lparr>webNotifications := webNotifications ns @ [notification]\<rparr>))
         else (\<not> notifier_fails b notification, ns))"

definition notifySummary :: "backend \<Rightarrow> NotificationService \<Rightarrow> nat \<Rightarrow> bool \<times> NotificationService" where
  "notifySummary b ns count =
     (if count = 0 then (True, ns)
      else let notification = SummaryNotification count
           in if isProduction ns
              then (True, sendToWebClients b (ns\<lparr>webNotifications := webNotifications ns @ [notification]\<rparr>))
              else (\<not> notifier_fails b notification, ns))"

definition testNotification :: "backend \<Rightarrow> NotificationService \<Rightarrow> bool \<times> NotificationService" where
  "testNotification b ns =
     (if isProduction ns then (True, sendToWebClients b ns)
      else (\<not> notifier_fails b TestNotification, ns))"

text \<open>\<^verbatim>\<open>Array.prototype.slice(start)\<close> with one integer argument, and
  \<^verbatim>\<open>getRecentNotifications(limit)\<close>, which is \<^verbatim>\<open>webNotifications.slice(-limit)\<close>.\<close>

definition slice_from :: "int \<Rightarrow> 'a list \<Rightarrow> 'a list" where
  "slice_from start xs =
     (if start < 0 then drop (nat (max (int (length xs) + start) 0)) xs
      else drop (nat start) xs)"

definition getRecentNotifications :: "NotificationService \<Rightarrow> int \<Rightarrow> notification list" where
  "getRecentNotifications ns limit = slice_from (- limit) (webNotifications ns)"

text \<open>A sequence of calls on the dispatcher, run in order.\<close>

datatype dispatch = Pending email real | Summary nat | Test

fun dispatchAll :: "backend \<Rightarrow> dispatch list \<Rightarrow> NotificationService \<Rightarrow> NotificationService" where
  "dispatchAll b [] ns = ns"
| "dispatchAll b (Pending request hoursOld # cs) ns =
     dispatchAll b cs (snd (notifyPendingLeaveRequest b ns request hoursOld))"
| "dispatchAll b (Summary count # cs) ns = dispatchAll b cs (snd (notifySummary b ns count))"
| "dispatchAll b (Test # cs) ns = dispatchAll b cs (snd (testNotification b ns))"

text \<open>The calls that emit a record into the web buffer.\<close>

fun emitsRecord :: "dispatch \<Rightarrow> bool" where
  "emitsRecord (Pending request hoursOld) = True"
| "emitsRecord (Summary count) = (count \<noteq> 0)"
| "emitsRecord Test = False"

text \<open>The record a call builds.\<close>

fun recordOf :: "dispatch \<Rightarrow> notification" where
  "recordOf (Pending request hoursOld) =
     LeaveRequestNotification (or_default (js ''No Subject'') (subject request))
       (or_default ''Unknown'' (date request)) hoursOld"
| "recordOf (Summary count) = SummaryNotification count"
| "recordOf Test = TestNotification"

section \<open>Notification Dispatcher: push channel\<close>

text \<open>
  \<^verbatim>\<open>FirebaseService\<close>. The token set is a list in insertion order without repetition,
  which is what \<^verbatim>\<open>Array.from\<close> reads off a \<^verbatim>\<open>Set\<close>. The multicast call is an argument:
  \<open>None\<close> when it throws, otherwise the provider's batch response with one success flag
  per token sent.
\<close>

record FirebaseService =
  initialized :: bool
  fcmTokens :: "string list"

record batch_response =
  responses :: "bool list"
  successCount :: nat
  failureCount :: nat

definition addFCMToken :: "FirebaseService \<Rightarrow> string \<Rightarrow> FirebaseService" where
  "addFCMToken fs token =
     (if token \<noteq> [] \<and> token \<notin> set (fcmTokens fs) then fs\<lparr>fcmTokens := fcmTokens fs @ [token]\<rparr>
      else fs)"

definition removeFCMToken :: "FirebaseService \<Rightarrow> string \<Rightarrow> FirebaseService" where
  "removeFCMToken fs token = fs\<lparr>fcmTokens := removeAll token (fcmTokens fs)\<rparr>"

text \<open>
  The \<^verbatim>\<open>forEach\<close> over the per-recipient results. \<^verbatim>\<open>tokens[idx]\<close> past the end is
  \<^verbatim>\<open>undefined\<close> and \<^verbatim>\<open>failedToken.substring\<close> then throws: the flag of the result is
  \<open>False\<close>, and the deletions made so far stay.
\<close>

fun pruneLoop :: "string list \<Rightarrow> nat \<Rightarrow> bool list \<Rightarrow> string list \<Rightarrow> bool \<times> string list" where
  "pruneLoop tokens idx [] registry = (True, registry)"
| "pruneLoop tokens idx (success # resps) registry =
     (if \<not> success
      then (if idx < length tokens
            then pruneLoop tokens (Suc idx) resps (removeAll (tokens ! idx) registry)
            else (False, registry))
      else pruneLoop tokens (Suc idx) resps registry)"

definition sendNotification ::
    "(string list \<Rightarrow> batch_response option) \<Rightarrow> FirebaseService \<Rightarrow> bool \<times> FirebaseService" where
  "sendNotification sendMulticast fs =
     (if \<not> initialized fs \<or> fcmTokens fs = [] then (False, fs)
      else let tokens = fcmTokens fs
           in case sendMulticast tokens of
                None \<Rightarrow> (False, fs)
              | Some response \<Rightarrow>
                  if failureCount response > 0
                  then (case pruneLoop tokens 0 (responses response) (fcmTokens fs) of
                          (completed, registry) \<Rightarrow> (completed, fs\<lparr>fcmTokens := registry\<rparr>))
                  else (True, fs))"

text \<open>The tokens whose per-recipient result reports a failure.\<close>

definition failedTokens :: "string list \<Rightarrow> bool list \<Rightarrow> string set" where
  "failedTokens tokens resps = set (map fst (filter (\<lambda>(token, success). \<not> success) (zip tokens resps)))"

section \<open>Run Orchestrator\<close>

text \<open>
  \<^verbatim>\<open>LeaveRequestAgent\<close>. The agent owns the processed set and its notification service.
  The Gmail client is handed to the constructor, so one scan sees it as a \<open>world\<close>: what
  \<^verbatim>\<open>initialize\<close>, \<^verbatim>\<open>findLeaveRequests\<close> and \<^verbatim>\<open>checkForReply\<close> answer, where \<open>Some msg\<close> and
  \<open>Inl msg\<close> are a call that throws an error with that message; the clock reading at
  the evaluation and at the notification of each candidate; and the notification
  backend. The log records, in order, the resolver calls, the additions to the
  processed set and the alerts with the boolean each returned.
\<close>

record results =
  checked_requests :: nat
  pending_requests :: nat
  notifications_sent :: nat
  errors :: "string list"

datatype event =
  CheckForReply email
| MarkProcessed string
| NotifyPending email bool
| NotifySummary nat

record agent =
  processedRequests :: "string set"
  notificationService :: NotificationService

record world =
  authenticate :: "string option"
  findLeaveRequests_call :: "int \<Rightarrow> string + email list"
  checkForReply_call :: "email \<Rightarrow> string + bool"
  clock_eval :: "email \<Rightarrow> int"
  clock_notify :: "email \<Rightarrow> int"
  channel :: backend

record scan =
  scan_agent :: agent
  pendingRequests :: "email list"
  scan_results :: results
  scan_log :: "event list"

definition markProcessed :: "string \<Rightarrow> scan \<Rightarrow> scan" where
  "markProcessed requestId s =
     s\<lparr>scan_agent := (scan_agent s)\<lparr>processedRequests :=
                        insert requestId (processedRequests (scan_agent s))\<rparr>,
       scan_log := scan_log s @ [MarkProcessed requestId]\<rparr>"

text \<open>The first loop of \<^verbatim>\<open>runOnce\<close>; \<open>Some msg\<close> is the error that left it.\<close>

fun evaluateLoop :: "world \<Rightarrow> int \<Rightarrow> email list \<Rightarrow> scan \<Rightarrow> string option \<times> scan" where
  "evaluateLoop w replyTimeoutHours [] s = (None, s)"
| "evaluateLoop w replyTimeoutHours (request # requests) s =
     (if msg_id request \<in> processedRequests (scan_agent s)
      then evaluateLoop w replyTimeoutHours requests s
      else if getEmailAgeHours (clock_eval w request) request < real_of_int replyTimeoutHours
      then evaluateLoop w replyTimeoutHours requests s
      else (case checkForReply_call w request of
              Inl msg \<Rightarrow> (Some msg, s\<lparr>scan_log := scan_log s @ [CheckForReply request]\<rparr>)
            | Inr hasReply \<Rightarrow>
                if hasReply
                then evaluateLoop w replyTimeoutHours requests
                       (markProcessed (msg_id request)
                          (s\<lparr>scan_log := scan_log s @ [CheckForReply request]\<rparr>))
                else evaluateLoop w replyTimeoutHours requests
                       (s\<lparr>scan_log := scan_log s @ [CheckForReply request],
                          pendingRequests := pendingRequests s @ [request],
                          scan_results := (scan_results s)\<lparr>pending_requests :=
                             pending_requests (scan_results s) + 1\<rparr>\<rparr>)))"

text \<open>The second loop: alert, count, mark. The boolean the dispatcher returns is not
  looked at.\<close>

fun notifyLoop :: "world \<Rightarrow> email list \<Rightarrow> scan \<Rightarrow> scan" where
  "notifyLoop w [] s = s"
| "notifyLoop w (request # requests) s =
     (let hoursOld = getEmailAgeHours (clock_notify w request) request;
          (sent, ns) = notifyPendingLeaveRequest (channel w)
                         (notificationService (scan_agent s)) request hoursOld;
          s1 = s\<lparr>scan_agent := (scan_agent s)\<lparr>notificationService := ns\<rparr>,
                 scan_log := scan_log s @ [NotifyPending request sent],
                 scan_results := (scan_results s)\<lparr>notifications_sent :=
                    notifications_sent (scan_results s) + 1\<rparr>\<rparr>
      in notifyLoop w requests (markProcessed (msg_id request) s1))"

definition summaryStep :: "world \<Rightarrow> scan \<Rightarrow> scan" where
  "summaryStep w s =
     (if length (pendingRequests s) > 0
      then s\<lparr>scan_agent := (scan_agent s)\<lparr>notificationService :=
                 snd (notifySummary (channel w) (notificationService (scan_agent s))
                        (length (pendingRequests s)))\<rparr>,
             scan_log := scan_log s @ [NotifySummary (length (pendingRequests s))]\<rparr>
      else s)"

definition errorMsg :: "string \<Rightarrow> string" where
  "errorMsg msg = ''Error during agent execution: '' @ msg"

text \<open>
  \<^verbatim>\<open>runOnce\<close>. \<open>Inl msg\<close> is \<^verbatim>\<open>runOnce\<close> itself throwing: \<^verbatim>\<open>await this.initialize()\<close> stands
  before the \<^verbatim>\<open>try\<close>. Everything after it is inside the one \<^verbatim>\<open>try\<close>, whose \<^verbatim>\<open>catch\<close>
  appends the message to \<^verbatim>\<open>results.errors\<close>.
\<close>

definition results0 :: results where
  "results0 = \<lparr>checked_requests = 0, pending_requests = 0, notifications_sent = 0, errors = []\<rparr>"

definition initialScan :: "agent \<Rightarrow> email list \<Rightarrow> scan" where
  "initialScan a leaveRequests =
     \<lparr>scan_agent = a, pendingRequests = [],
      scan_results = results0\<lparr>checked_requests := length leaveRequests\<rparr>,
      scan_log = []\<rparr>"

definition runOnce :: "world \<Rightarrow> int \<Rightarrow> agent \<Rightarrow> (string + results) \<times> agent \<times> event list" where
  "runOnce w replyTimeoutHours a =
     (case authenticate w of
        Some msg \<Rightarrow> (Inl msg, a, [])
      | None \<Rightarrow>
          (case findLeaveRequests_call w (daysBack replyTimeoutHours) of
             Inl msg \<Rightarrow> (Inr (results0\<lparr>errors := [errorMsg msg]\<rparr>), a, [])
           | Inr leaveRequests \<Rightarrow>
               (case evaluateLoop w replyTimeoutHours leaveRequests (initialScan a leaveRequests) of
                  (Some msg, s) \<Rightarrow>
                    (Inr ((scan_results s)\<lparr>errors := errors (scan_results s) @ [errorMsg msg]\<rparr>),
                     scan_agent s, scan_log s)
                | (None, s) \<Rightarrow>
                    let s' = summaryStep w (notifyLoop w (pendingRequests s) s)
                    in (Inr (scan_results s'), scan_agent s', scan_log s'))))"


text \<open>The world of the repository's own \<^verbatim>\<open>GmailClient\<close> built with an authorised
  client, as the server does: \<^verbatim>\<open>_authenticate\<close> returns at once, and the two calls catch
  every provider error themselves.\<close>

definition gmailWorld ::
    "(jsstring \<Rightarrow> jsstring) \<Rightarrow> mailbox \<Rightarrow> jsstring list \<Rightarrow> (email \<Rightarrow> int) \<Rightarrow> (email \<Rightarrow> int)
       \<Rightarrow> backend \<Rightarrow> world" where
  "gmailWorld toLowerCase mb keywords t1 t2 b =
     \<lparr>authenticate = None,
      findLeaveRequests_call = (\<lambda>window. Inr (findLeaveRequests toLowerCase mb keywords window)),
      checkForReply_call = (\<lambda>request. Inr (checkForReply toLowerCase mb request)),
      clock_eval = t1, clock_notify = t2, channel = b\<rparr>"

text \<open>
  Reading a log against the processed set: every alert is for an id that is not in the
  set at that point of the log, the set growing with each \<open>MarkProcessed\<close>.
\<close>

fun alertsFresh :: "string set \<Rightarrow> event list \<Rightarrow> bool" where
  "alertsFresh P [] = True"
| "alertsFresh P (NotifyPending request sent # es) = (msg_id request \<notin> P \<and> alertsFresh P es)"
| "alertsFresh P (MarkProcessed requestId # es) = alertsFresh (insert requestId P) es"
| "alertsFresh P (CheckForReply request # es) = alertsFresh P es"
| "alertsFresh P (NotifySummary count # es) = alertsFresh P es"

fun alerted :: "event list \<Rightarrow> email list" where
  "alerted [] = []"
| "alerted (NotifyPending request sent # es) = request # alerted es"
| "alerted (e # es) = alerted es"

fun resolved :: "event list \<Rightarrow> email list" where
  "resolved [] = []"
| "resolved (CheckForReply request # es) = request # resolved es"
| "resolved (e # es) = resolved es"

fun marked :: "event list \<Rightarrow> string set" where
  "marked [] = {}"
| "marked (MarkProcessed requestId # es) = insert requestId (marked es)"
| "marked (e # es) = marked es"

text \<open>The search result of a scan lists no message id twice (a search that throws lists
  nothing).\<close>

definition uniqueIds :: "world \<Rightarrow> int \<Rightarrow> bool" where
  "uniqueIds w replyTimeoutHours =
     (case findLeaveRequests_call w (daysBack replyTimeoutHours) of
        Inl msg \<Rightarrow> True
      | Inr leaveRequests \<Rightarrow> distinct (map msg_id leaveRequests))"

section \<open>Example inputs\<close>

text \<open>
  A lower-casing function for the examples: on strings of code units below 256 it is
  what \<^verbatim>\<open>toLowerCase\<close> computes (A to Z and the capital letters of Latin-1 move up by 32).
\<close>

definition exampleToLowerCase :: "jsstring \<Rightarrow> jsstring" where
  "exampleToLowerCase s =
     map (\<lambda>c. if (65 \<le> c \<and> c \<le> 90) \<or> (192 \<le> c \<and> c \<le> 222 \<and> c \<noteq> 215) then c + 32 else c) s"

text \<open>
  A leave request sent one hour after the epoch, the reply to it sent ten hours later, a
  message without a subject, and a mailbox holding them in one thread.
\<close>

definition ex_original :: email where
  "ex_original = \<lparr>msg_id = ''m1'', thread_id = Some ''t1'', snippet = [], internal_date = Some 3600000,
      msg_from = Some ''me@example.com'', msg_to = Some ''Boss <boss@example.com>'',
      subject = Some (js ''Leave Request - John''), date = Some ''Mon, 1 Jan 2024'', body = []\<rparr>"

definition ex_reply :: email where
  "ex_reply = \<lparr>msg_id = ''m2'', thread_id = Some ''t1'', snippet = [], internal_date = Some 39600000,
      msg_from = Some ''boss@example.com'', msg_to = Some ''me@example.com'',
      subject = Some (js ''Re: Leave Request - John''), date = Some ''Mon, 1 Jan 2024'', body = []\<rparr>"

definition ex_thread_alone :: "thread_message list" where
  "ex_thread_alone = [\<lparr>tm_id = ''m1'', internalDate = Some 3600000\<rparr>]"

definition ex_thread_replied :: "thread_message list" where
  "ex_thread_replied = [\<lparr>tm_id = ''m1'', internalDate = Some 3600000\<rparr>,
                        \<lparr>tm_id = ''m2'', internalDate = Some 39600000\<rparr>]"

definition ex_mailbox :: "thread_message list \<Rightarrow> mailbox" where
  "ex_mailbox thread =
     \<lparr>messages_list = (\<lambda>window. Some [''m1'']),
      messages_get = (\<lambda>i. if i = ''m1'' then Some ex_original
                           else if i = ''m2'' then Some ex_reply else None),
      threads_get = (\<lambda>t. if t = ''t1'' then Some thread else None)\<rparr>"

definition ex_no_subject :: email where
  "ex_no_subject = \<lparr>msg_id = ''m3'', thread_id = Some ''t3'', snippet = [], internal_date = Some 3600000,
      msg_from = Some ''me@example.com'', msg_to = Some ''boss@example.com'',
      subject = None, date = Some ''Mon, 1 Jan 2024'', body = []\<rparr>"

text \<open>A registry of three tokens and a batch response in which the second fails.\<close>

definition ex_tokens :: FirebaseService where
  "ex_tokens = \<lparr>initialized = True, fcmTokens = [''A'', ''B'', ''C'']\<rparr>"

definition ex_multicast :: "string list \<Rightarrow> batch_response option" where
  "ex_multicast tokens =
     Some \<lparr>responses = [True, False, True], successCount = 2, failureCount = 1\<rparr>"

text \<open>A backend whose desktop notifier always reports an error, a web-mode service
  with an empty buffer, and three calls on it.\<close>

definition ex_backend :: backend where
  "ex_backend = \<lparr>notifier_fails = (\<lambda>n. True), write_throws = (\<lambda>c. False)\<rparr>"

definition ex_web_service :: NotificationService where
  "ex_web_service = \<lparr>isProduction = True, webNotifications = [], webClients = []\<rparr>"

definition ex_calls :: "dispatch list" where
  "ex_calls = [Pending ex_original 72, Summary 1, Test]"

text \<open>
  An agent in desktop mode that has processed nothing; the world of the repository's client
  over the example mailbox, with one clock reading for the whole scan; and a world whose
  search returns two overdue requests and whose resolver throws on the first, with its
  variant in which authentication fails.
\<close>

definition ex_agent :: agent where
  "ex_agent = \<lparr>processedRequests = {},
     notificationService = \<lparr>isProduction = False, webNotifications = [], webClients = []\<rparr>\<rparr>"

definition ex_world :: "thread_message list \<Rightarrow> int \<Rightarrow> world" where
  "ex_world thread now = gmailWorld exampleToLowerCase (ex_mailbox thread) [js ''leave request'']
      (\<lambda>e. now) (\<lambda>e. now) ex_backend"

definition ex_second :: email where
  "ex_second = \<lparr>msg_id = ''m4'', thread_id = Some ''t4'', snippet = [], internal_date = Some 3600000,
      msg_from = Some ''me@example.com'', msg_to = Some ''hr@example.com'',
      subject = Some (js ''Vacation request''), date = Some ''Mon, 1 Jan 2024'', body = []\<rparr>"

definition ex_throwing :: world where
  "ex_throwing =
     \<lparr>authenticate = None,
      findLeaveRequests_call = (\<lambda>window. Inr [ex_original, ex_second]),
      checkForReply_call = (\<lambda>request. if msg_id request = ''m1'' then Inl ''quota exceeded''
                                         else Inr False),
      clock_eval = (\<lambda>e. 262800000), clock_notify = (\<lambda>e. 262800000), channel = ex_backend\<rparr>"





definition ex_unauthenticated :: world where
  "ex_unauthenticated = ex_throwing\<lparr>authenticate := Some ''Gmail credentials file not found''\<rparr>"

section \<open>Auxiliary facts\<close>

subsection \<open>Reading logs\<close>

lemma alertsFresh_append:
  "alertsFresh P (l @ l') = (alertsFresh P l \<and> alertsFresh (P \<union> marked l) l')"
proof (induction l arbitrary: P)
  case Nil
  then show ?case by simp
next
  case (Cons e l)
  then show ?case by (cases e) auto
qed

lemma alerted_append: "alerted (l @ l') = alerted l @ alerted l'"
proof (induction l)
  case Nil
  then show ?case by simp
next
  case (Cons e l)
  then show ?case by (cases e) auto
qed

lemma marked_append: "marked (l @ l') = marked l \<union> marked l'"
proof (induction l)
  case Nil
  then show ?case by simp
next
  case (Cons e l)
  then show ?case by (cases e) auto
qed

lemma alertsFresh_no_alerts: "alerted l = [] \<Longrightarrow> alertsFresh P l"
proof (induction l arbitrary: P)
  case Nil
  then show ?case by simp
next
  case (Cons e l)
  then show ?case by (cases e) auto
qed

lemma alertsFresh_alerted: "alertsFresh P l \<Longrightarrow> r \<in> set (alerted l) \<Longrightarrow> msg_id r \<notin> P"
proof (induction l arbitrary: P)
  case Nil
  then show ?case by simp
next
  case (Cons e l)
  then show ?case by (cases e) auto
qed

lemma alerted_set: "r \<in> set (alerted l) \<longleftrightarrow> (\<exists>sent. NotifyPending r sent \<in> set l)"
proof (induction l)
  case Nil
  then show ?case by simp
next
  case (Cons e l)
  then show ?case by (cases e) auto
qed



lemma resolved_append: "resolved (l @ l') = resolved l @ resolved l'"
proof (induction l)
  case Nil
  then show ?case by simp
next
  case (Cons e l)
  then show ?case by (cases e) auto
qed

lemma resolved_set: "r \<in> set (resolved l) \<longleftrightarrow> CheckForReply r \<in> set l"
proof (induction l)
  case Nil
  then show ?case by simp
next
  case (Cons e l)
  then show ?case by (cases e) auto
qed

subsection \<open>The first loop, step by step\<close>

lemma subseq_distinct: "subseq xs ys \<Longrightarrow> distinct ys \<Longrightarrow> distinct xs"
proof (induction rule: list_emb.induct)
  case (list_emb_Nil ys)
  then show ?case by simp
next
  case (list_emb_Cons xs ys y)
  then show ?case by simp
next
  case (list_emb_Cons2 x y xs ys)
  then show ?case by (auto elim: list_emb_set)
qed

lemma evaluateLoop_skip:
  "msg_id r \<in> processedRequests (scan_agent s)
     \<or> getEmailAgeHours (clock_eval w r) r < real_of_int T \<Longrightarrow>
   evaluateLoop w T (r # reqs) s = evaluateLoop w T reqs s"
  by auto

lemma evaluateLoop_throw:
  "msg_id r \<notin> processedRequests (scan_agent s) \<Longrightarrow>
   \<not> getEmailAgeHours (clock_eval w r) r < real_of_int T \<Longrightarrow>
   checkForReply_call w r = Inl msg \<Longrightarrow>
   evaluateLoop w T (r # reqs) s = (Some msg, s\<lparr>scan_log := scan_log s @ [CheckForReply r]\<rparr>)"
  by simp

lemma evaluateLoop_reply:
  "msg_id r \<notin> processedRequests (scan_agent s) \<Longrightarrow>
   \<not> getEmailAgeHours (clock_eval w r) r < real_of_int T \<Longrightarrow>
   checkForReply_call w r = Inr True \<Longrightarrow>
   evaluateLoop w T (r # reqs) s =
     evaluateLoop w T reqs
       (markProcessed (msg_id r) (s\<lparr>scan_log := scan_log s @ [CheckForReply r]\<rparr>))"
  by simp

lemma evaluateLoop_pending:
  "msg_id r \<notin> processedRequests (scan_agent s) \<Longrightarrow>
   \<not> getEmailAgeHours (clock_eval w r) r < real_of_int T \<Longrightarrow>
   checkForReply_call w r = Inr False \<Longrightarrow>
   evaluateLoop w T (r # reqs) s =
     evaluateLoop w T reqs
       (s\<lparr>scan_log := scan_log s @ [CheckForReply r],
          pendingRequests := pendingRequests s @ [r],
          scan_results := (scan_results s)\<lparr>pending_requests :=
             pending_requests (scan_results s) + 1\<rparr>\<rparr>)"
  by simp

lemma evaluateLoop_cases [case_names skip throw reply pending]:
  assumes "msg_id r \<in> processedRequests (scan_agent s)
             \<or> getEmailAgeHours (clock_eval w r) r < real_of_int T \<Longrightarrow> thesis"
    and "\<And>msg. msg_id r \<notin> processedRequests (scan_agent s) \<Longrightarrow>
           \<not> getEmailAgeHours (clock_eval w r) r < real_of_int T \<Longrightarrow>
           checkForReply_call w r = Inl msg \<Longrightarrow> thesis"
    and "msg_id r \<notin> processedRequests (scan_agent s) \<Longrightarrow>
           \<not> getEmailAgeHours (clock_eval w r) r < real_of_int T \<Longrightarrow>
           checkForReply_call w r = Inr True \<Longrightarrow> thesis"
    and "msg_id r \<notin> processedRequests (scan_agent s) \<Longrightarrow>
           \<not> getEmailAgeHours (clock_eval w r) r < real_of_int T \<Longrightarrow>
           checkForReply_call w r = Inr False \<Longrightarrow> thesis"
  shows thesis
proof (cases "checkForReply_call w r")
  case (Inl msg)
  then show ?thesis using assms(1,2) by blast
next
  case (Inr hasReply)
  then show ?thesis using assms(1,3,4) by (cases hasReply) auto
qed

lemmas evaluateLoop_step = evaluateLoop_skip evaluateLoop_throw evaluateLoop_reply evaluateLoop_pending

lemma evaluateLoop_log:
  "evaluateLoop w T reqs s = (err, s') \<Longrightarrow>
     \<exists>l. scan_log s' = scan_log s @ l \<and> alerted l = []
        \<and> processedRequests (scan_agent s') = processedRequests (scan_agent s) \<union> marked l
        \<and> (\<forall>r \<in> set (resolved l).
              r \<in> set reqs \<and> \<not> getEmailAgeHours (clock_eval w r) r < real_of_int T)
        \<and> (\<forall>i \<in> marked l. \<exists>r \<in> set reqs. msg_id r = i
              \<and> \<not> getEmailAgeHours (clock_eval w r) r < real_of_int T
              \<and> checkForReply_call w r = Inr True)
        \<and> (\<forall>r \<in> set (resolved l). \<forall>msg. checkForReply_call w r = Inl msg \<longrightarrow>
              err = Some msg \<and> last l = CheckForReply r)"
proof (induction reqs arbitrary: s)
  case Nil
  then show ?case by auto
next
  case (Cons r reqs)
  show ?case
  proof (cases rule: evaluateLoop_cases [of r s w T])
    case skip
    with Cons.prems have "evaluateLoop w T reqs s = (err, s')"
      by (simp_all add: evaluateLoop_step del: evaluateLoop.simps)
    from Cons.IH [OF this] show ?thesis by auto
  next
    case (throw msg)
    with Cons.prems have "err = Some msg" "s' = s\<lparr>scan_log := scan_log s @ [CheckForReply r]\<rparr>"
      by (simp_all add: evaluateLoop_step del: evaluateLoop.simps)
    then show ?thesis using throw by (intro exI [of _ "[CheckForReply r]"]) auto
  next
    case reply
    let ?s1 = "markProcessed (msg_id r) (s\<lparr>scan_log := scan_log s @ [CheckForReply r]\<rparr>)"
    from reply Cons.prems have "evaluateLoop w T reqs ?s1 = (err, s')"
      by (simp_all add: evaluateLoop_step del: evaluateLoop.simps)
    from Cons.IH [OF this] obtain l where
      l: "scan_log s' = scan_log ?s1 @ l" "alerted l = []"
         "processedRequests (scan_agent s') = processedRequests (scan_agent ?s1) \<union> marked l"
         "\<forall>r \<in> set (resolved l).
              r \<in> set reqs \<and> \<not> getEmailAgeHours (clock_eval w r) r < real_of_int T"
         "\<forall>i \<in> marked l. \<exists>r \<in> set reqs. msg_id r = i
              \<and> \<not> getEmailAgeHours (clock_eval w r) r < real_of_int T
              \<and> checkForReply_call w r = Inr True"
         "\<forall>r \<in> set (resolved l). \<forall>msg. checkForReply_call w r = Inl msg \<longrightarrow>
              err = Some msg \<and> last l = CheckForReply r"
      by blast
    show ?thesis
      using l reply
      by (intro exI [of _ "CheckForReply r # MarkProcessed (msg_id r) # l"])
         (auto simp: markProcessed_def)
  next
    case pending
    let ?s1 = "s\<lparr>scan_log := scan_log s @ [CheckForReply r],
                  pendingRequests := pendingRequests s @ [r],
                  scan_results := (scan_results s)\<lparr>pending_requests :=
                     pending_requests (scan_results s) + 1\<rparr>\<rparr>"
    from pending Cons.prems have "evaluateLoop w T reqs ?s1 = (err, s')"
      by (simp_all add: evaluateLoop_step del: evaluateLoop.simps)
    from Cons.IH [OF this] obtain l where
      l: "scan_log s' = scan_log ?s1 @ l" "alerted l = []"
         "processedRequests (scan_agent s') = processedRequests (scan_agent ?s1) \<union> marked l"
         "\<forall>r \<in> set (resolved l).
              r \<in> set reqs \<and> \<not> getEmailAgeHours (clock_eval w r) r < real_of_int T"
         "\<forall>i \<in> marked l. \<exists>r \<in> set reqs. msg_id r = i
              \<and> \<not> getEmailAgeHours (clock_eval w r) r < real_of_int T
              \<and> checkForReply_call w r = Inr True"
         "\<forall>r \<in> set (resolved l). \<forall>msg. checkForReply_call w r = Inl msg \<longrightarrow>
              err = Some msg \<and> last l = CheckForReply r"
      by blast
    show ?thesis
      using l pending
      by (intro exI [of _ "CheckForReply r # l"]) auto
  qed
qed

lemma evaluateLoop_queue:
  "evaluateLoop w T reqs s = (err, s') \<Longrightarrow>
     \<exists>pend. pendingRequests s' = pendingRequests s @ pend \<and> subseq pend reqs
        \<and> (\<forall>r \<in> set pend. checkForReply_call w r = Inr False
               \<and> msg_id r \<notin> processedRequests (scan_agent s)
               \<and> \<not> getEmailAgeHours (clock_eval w r) r < real_of_int T)
        \<and> scan_results s' = (scan_results s)\<lparr>pending_requests :=
               pending_requests (scan_results s) + length pend\<rparr>
        \<and> notificationService (scan_agent s') = notificationService (scan_agent s)"
proof (induction reqs arbitrary: s)
  case Nil
  then show ?case by auto
next
  case (Cons r reqs)
  show ?case
  proof (cases rule: evaluateLoop_cases [of r s w T])
    case skip
    with Cons.prems have "evaluateLoop w T reqs s = (err, s')"
      by (simp_all add: evaluateLoop_step del: evaluateLoop.simps)
    from Cons.IH [OF this] show ?thesis by auto
  next
    case (throw msg)
    with Cons.prems have "s' = s\<lparr>scan_log := scan_log s @ [CheckForReply r]\<rparr>"
      by simp
    then show ?thesis by (intro exI [of _ "[]"]) auto
  next
    case reply
    let ?s1 = "markProcessed (msg_id r) (s\<lparr>scan_log := scan_log s @ [CheckForReply r]\<rparr>)"
    from reply Cons.prems have "evaluateLoop w T reqs ?s1 = (err, s')"
      by (simp_all add: evaluateLoop_step del: evaluateLoop.simps)
    from Cons.IH [OF this] obtain pend where
      p: "pendingRequests s' = pendingRequests ?s1 @ pend" "subseq pend reqs"
         "\<forall>r \<in> set pend. checkForReply_call w r = Inr False
               \<and> msg_id r \<notin> processedRequests (scan_agent ?s1)
               \<and> \<not> getEmailAgeHours (clock_eval w r) r < real_of_int T"
         "scan_results s' = (scan_results ?s1)\<lparr>pending_requests :=
               pending_requests (scan_results ?s1) + length pend\<rparr>"
         "notificationService (scan_agent s') = notificationService (scan_agent ?s1)"
      by blast
    show ?thesis
      using p by (intro exI [of _ pend]) (auto simp: markProcessed_def)
  next
    case pending
    let ?s1 = "s\<lparr>scan_log := scan_log s @ [CheckForReply r],
                  pendingRequests := pendingRequests s @ [r],
                  scan_results := (scan_results s)\<lparr>pending_requests :=
                     pending_requests (scan_results s) + 1\<rparr>\<rparr>"
    from pending Cons.prems have "evaluateLoop w T reqs ?s1 = (err, s')"
      by (simp_all add: evaluateLoop_step del: evaluateLoop.simps)
    from Cons.IH [OF this] obtain pend where
      p: "pendingRequests s' = pendingRequests ?s1 @ pend" "subseq pend reqs"
         "\<forall>r \<in> set pend. checkForReply_call w r = Inr False
               \<and> msg_id r \<notin> processedRequests (scan_agent ?s1)
               \<and> \<not> getEmailAgeHours (clock_eval w r) r < real_of_int T"
         "scan_results s' = (scan_results ?s1)\<lparr>pending_requests :=
               pending_requests (scan_results ?s1) + length pend\<rparr>"
         "notificationService (scan_agent s') = notificationService (scan_agent ?s1)"
      by blast
    show ?thesis
      using p pending by (intro exI [of _ "r # pend"]) auto
  qed
qed


subsection \<open>The second loop and the summary\<close>

lemma notifyLoop_step:
  "notifyLoop w (r # pend) s =
     notifyLoop w pend
       (markProcessed (msg_id r)
          (s\<lparr>scan_agent := (scan_agent s)\<lparr>notificationService :=
                 snd (notifyPendingLeaveRequest (channel w) (notificationService (scan_agent s)) r
                        (getEmailAgeHours (clock_notify w r) r))\<rparr>,
             scan_log := scan_log s @
               [NotifyPending r
                  (fst (notifyPendingLeaveRequest (channel w) (notificationService (scan_agent s)) r
                          (getEmailAgeHours (clock_notify w r) r)))],
             scan_results := (scan_results s)\<lparr>notifications_sent :=
                notifications_sent (scan_results s) + 1\<rparr>\<rparr>))"
  by (simp add: Let_def split: prod.splits)

lemma notifyLoop_log:
  "\<exists>l. scan_log (notifyLoop w pend s) = scan_log s @ l \<and> alerted l = pend \<and> resolved l = []
      \<and> marked l = msg_id ` set pend
      \<and> processedRequests (scan_agent (notifyLoop w pend s))
          = processedRequests (scan_agent s) \<union> marked l
      \<and> (distinct (map msg_id pend)
           \<and> (\<forall>r \<in> set pend. msg_id r \<notin> processedRequests (scan_agent s))
          \<longrightarrow> alertsFresh (processedRequests (scan_agent s)) l)
      \<and> scan_results (notifyLoop w pend s) = (scan_results s)\<lparr>notifications_sent :=
            notifications_sent (scan_results s) + length pend\<rparr>
      \<and> pendingRequests (notifyLoop w pend s) = pendingRequests s"
proof (induction pend arbitrary: s)
  case Nil
  then show ?case by simp
next
  case (Cons r pend)
  define sent where "sent = fst (notifyPendingLeaveRequest (channel w)
      (notificationService (scan_agent s)) r (getEmailAgeHours (clock_notify w r) r))"
  define s1 where "s1 = markProcessed (msg_id r)
          (s\<lparr>scan_agent := (scan_agent s)\<lparr>notificationService :=
                 snd (notifyPendingLeaveRequest (channel w) (notificationService (scan_agent s)) r
                        (getEmailAgeHours (clock_notify w r) r))\<rparr>,
             scan_log := scan_log s @ [NotifyPending r sent],
             scan_results := (scan_results s)\<lparr>notifications_sent :=
                notifications_sent (scan_results s) + 1\<rparr>\<rparr>)"
  have step: "notifyLoop w (r # pend) s = notifyLoop w pend s1"
    unfolding s1_def sent_def by (rule notifyLoop_step)
  have s1: "scan_log s1 = scan_log s @ [NotifyPending r sent, MarkProcessed (msg_id r)]"
      "processedRequests (scan_agent s1) = insert (msg_id r) (processedRequests (scan_agent s))"
      "scan_results s1 = (scan_results s)\<lparr>notifications_sent :=
                notifications_sent (scan_results s) + 1\<rparr>"
      "pendingRequests s1 = pendingRequests s"
    by (simp_all add: s1_def markProcessed_def)
  from Cons.IH [of s1] obtain l where
    l: "scan_log (notifyLoop w pend s1) = scan_log s1 @ l" "alerted l = pend" "resolved l = []"
       "marked l = msg_id ` set pend"
       "processedRequests (scan_agent (notifyLoop w pend s1))
          = processedRequests (scan_agent s1) \<union> marked l"
       "distinct (map msg_id pend)
           \<and> (\<forall>r \<in> set pend. msg_id r \<notin> processedRequests (scan_agent s1))
          \<longrightarrow> alertsFresh (processedRequests (scan_agent s1)) l"
       "scan_results (notifyLoop w pend s1) = (scan_results s1)\<lparr>notifications_sent :=
            notifications_sent (scan_results s1) + length pend\<rparr>"
       "pendingRequests (notifyLoop w pend s1) = pendingRequests s1"
    by blast
  show ?case
    unfolding step
    using l s1
    by (intro exI [of _ "NotifyPending r sent # MarkProcessed (msg_id r) # l"])
       (auto intro: rev_image_eqI)
qed

lemma summaryStep_log:
  "\<exists>l. scan_log (summaryStep w s) = scan_log s @ l \<and> alerted l = [] \<and> resolved l = []
      \<and> marked l = {}
      \<and> processedRequests (scan_agent (summaryStep w s)) = processedRequests (scan_agent s)
      \<and> scan_results (summaryStep w s) = scan_results s"
proof (cases "length (pendingRequests s) > 0")
  case True
  then show ?thesis
    by (intro exI [of _ "[NotifySummary (length (pendingRequests s))]"])
       (simp add: summaryStep_def)
next
  case False
  then show ?thesis
    by (intro exI [of _ "[]"]) (simp add: summaryStep_def)
qed

subsection \<open>One scan as a whole\<close>

text \<open>The four ways through \<^verbatim>\<open>runOnce\<close>.\<close>

lemma runOnce_cases [case_names auth find thrown completed]:
  assumes "\<And>msg. authenticate w = Some msg \<Longrightarrow> runOnce w T a = (Inl msg, a, []) \<Longrightarrow> thesis"
    and "\<And>msg. authenticate w = None \<Longrightarrow> findLeaveRequests_call w (daysBack T) = Inl msg \<Longrightarrow>
           runOnce w T a = (Inr (results0\<lparr>errors := [errorMsg msg]\<rparr>), a, []) \<Longrightarrow> thesis"
    and "\<And>reqs msg s. authenticate w = None \<Longrightarrow>
           findLeaveRequests_call w (daysBack T) = Inr reqs \<Longrightarrow>
           evaluateLoop w T reqs (initialScan a reqs) = (Some msg, s) \<Longrightarrow>
           runOnce w T a =
             (Inr ((scan_results s)\<lparr>errors := errors (scan_results s) @ [errorMsg msg]\<rparr>),
              scan_agent s, scan_log s) \<Longrightarrow> thesis"
    and "\<And>reqs s s'. authenticate w = None \<Longrightarrow>
           findLeaveRequests_call w (daysBack T) = Inr reqs \<Longrightarrow>
           evaluateLoop w T reqs (initialScan a reqs) = (None, s) \<Longrightarrow>
           s' = summaryStep w (notifyLoop w (pendingRequests s) s) \<Longrightarrow>
           runOnce w T a = (Inr (scan_results s'), scan_agent s', scan_log s') \<Longrightarrow> thesis"
  shows thesis
proof (cases "authenticate w")
  case (Some msg)
  then show ?thesis using assms(1) by (simp add: runOnce_def)
next
  case None
  show ?thesis
  proof (cases "findLeaveRequests_call w (daysBack T)")
    case (Inl msg)
    then show ?thesis using None assms(2) by (simp add: runOnce_def)
  next
    case (Inr reqs)
    obtain err s where ev: "evaluateLoop w T reqs (initialScan a reqs) = (err, s)"
      by (cases "evaluateLoop w T reqs (initialScan a reqs)") blast
    show ?thesis
    proof (cases err)
      case None': None
      with ev Inr None assms(4) show ?thesis by (simp add: runOnce_def Let_def)
    next
      case (Some msg)
      with ev Inr None assms(3) show ?thesis by (simp add: runOnce_def)
    qed
  qed
qed


lemma evaluateLoop_thrown:
  "evaluateLoop w T reqs s = (Some msg, s') \<Longrightarrow>
     \<exists>l r. scan_log s' = scan_log s @ l @ [CheckForReply r] \<and> r \<in> set reqs
        \<and> checkForReply_call w r = Inl msg"
proof (induction reqs arbitrary: s)
  case Nil
  then show ?case by simp
next
  case (Cons r reqs)
  show ?case
  proof (cases rule: evaluateLoop_cases [of r s w T])
    case skip
    with Cons.prems have "evaluateLoop w T reqs s = (Some msg, s')"
      by (simp_all add: evaluateLoop_step del: evaluateLoop.simps)
    from Cons.IH [OF this] show ?thesis by auto
  next
    case (throw msg')
    with Cons.prems have "msg' = msg" "s' = s\<lparr>scan_log := scan_log s @ [CheckForReply r]\<rparr>"
      by (simp_all add: evaluateLoop_step del: evaluateLoop.simps)
    then show ?thesis using throw by (intro exI [of _ "[]"] exI [of _ r]) auto
  next
    case reply
    let ?s1 = "markProcessed (msg_id r) (s\<lparr>scan_log := scan_log s @ [CheckForReply r]\<rparr>)"
    from reply Cons.prems have "evaluateLoop w T reqs ?s1 = (Some msg, s')"
      by (simp_all add: evaluateLoop_step del: evaluateLoop.simps)
    from Cons.IH [OF this] obtain l r' where
      "scan_log s' = scan_log ?s1 @ l @ [CheckForReply r']" "r' \<in> set reqs"
      "checkForReply_call w r' = Inl msg"
      by blast
    then show ?thesis
      by (intro exI [of _ "CheckForReply r # MarkProcessed (msg_id r) # l"] exI [of _ r'])
         (auto simp: markProcessed_def)
  next
    case pending
    let ?s1 = "s\<lparr>scan_log := scan_log s @ [CheckForReply r],
                  pendingRequests := pendingRequests s @ [r],
                  scan_results := (scan_results s)\<lparr>pending_requests :=
                     pending_requests (scan_results s) + 1\<rparr>\<rparr>"
    from pending Cons.prems have "evaluateLoop w T reqs ?s1 = (Some msg, s')"
      by (simp_all add: evaluateLoop_step del: evaluateLoop.simps)
    from Cons.IH [OF this] obtain l r' where
      "scan_log s' = scan_log ?s1 @ l @ [CheckForReply r']" "r' \<in> set reqs"
      "checkForReply_call w r' = Inl msg"
      by blast
    then show ?thesis
      by (intro exI [of _ "CheckForReply r # l"] exI [of _ r']) auto
  qed
qed

lemma subseq_in_set: "subseq xs ys \<Longrightarrow> x \<in> set xs \<Longrightarrow> x \<in> set ys"
  by (auto elim: list_emb_set)

text \<open>What a scan that leaves the first loop normally has done.\<close>

lemma completed_anatomy:
  assumes ev: "evaluateLoop w T reqs (initialScan a reqs) = (None, s)"
    and s': "s' = summaryStep w (notifyLoop w (pendingRequests s) s)"
  obtains l1 l2 l3 pend where
    "scan_log s' = l1 @ l2 @ l3"
    "alerted l1 = []" "alerted l2 = pend" "alerted l3 = []"
    "resolved l2 = []" "resolved l3 = []"
    "marked l2 = msg_id ` set pend" "marked l3 = {}"
    "processedRequests (scan_agent s') = processedRequests a \<union> marked l1 \<union> marked l2"
    "\<forall>r \<in> set (resolved l1).
        r \<in> set reqs \<and> \<not> getEmailAgeHours (clock_eval w r) r < real_of_int T
        \<and> (\<forall>msg. checkForReply_call w r \<noteq> Inl msg)"
    "\<forall>i \<in> marked l1. \<exists>r \<in> set reqs. msg_id r = i
        \<and> \<not> getEmailAgeHours (clock_eval w r) r < real_of_int T
        \<and> checkForReply_call w r = Inr True"
    "subseq pend reqs"
    "\<forall>r \<in> set pend. checkForReply_call w r = Inr False \<and> msg_id r \<notin> processedRequests a
        \<and> \<not> getEmailAgeHours (clock_eval w r) r < real_of_int T"
    "scan_results s' = \<lparr>checked_requests = length reqs, pending_requests = length pend,
        notifications_sent = length pend, errors = []\<rparr>"
    "distinct (map msg_id reqs) \<longrightarrow> alertsFresh (processedRequests a \<union> marked l1) l2"
proof -
  from evaluateLoop_log [OF ev] obtain l1 where
    l1: "scan_log s = l1" "alerted l1 = []"
        "processedRequests (scan_agent s) = processedRequests a \<union> marked l1"
        "\<forall>r \<in> set (resolved l1).
              r \<in> set reqs \<and> \<not> getEmailAgeHours (clock_eval w r) r < real_of_int T"
        "\<forall>i \<in> marked l1. \<exists>r \<in> set reqs. msg_id r = i
              \<and> \<not> getEmailAgeHours (clock_eval w r) r < real_of_int T
              \<and> checkForReply_call w r = Inr True"
        "\<forall>r \<in> set (resolved l1). \<forall>msg. checkForReply_call w r = Inl msg \<longrightarrow>
              None = Some msg \<and> last l1 = CheckForReply r"
    by (auto simp: initialScan_def)
  from evaluateLoop_queue [OF ev] obtain pend where
    pend: "pendingRequests s = pend" "subseq pend reqs"
        "\<forall>r \<in> set pend. checkForReply_call w r = Inr False \<and> msg_id r \<notin> processedRequests a
            \<and> \<not> getEmailAgeHours (clock_eval w r) r < real_of_int T"
        "scan_results s = \<lparr>checked_requests = length reqs, pending_requests = length pend,
            notifications_sent = 0, errors = []\<rparr>"
    by (auto simp: initialScan_def results0_def)
  from notifyLoop_log [of w pend s] obtain l2 where
    l2: "scan_log (notifyLoop w pend s) = scan_log s @ l2" "alerted l2 = pend" "resolved l2 = []"
        "marked l2 = msg_id ` set pend"
        "processedRequests (scan_agent (notifyLoop w pend s))
          = processedRequests (scan_agent s) \<union> marked l2"
        "distinct (map msg_id pend)
           \<and> (\<forall>r \<in> set pend. msg_id r \<notin> processedRequests (scan_agent s))
          \<longrightarrow> alertsFresh (processedRequests (scan_agent s)) l2"
        "scan_results (notifyLoop w pend s) = (scan_results s)\<lparr>notifications_sent :=
            notifications_sent (scan_results s) + length pend\<rparr>"
    by blast
  from summaryStep_log [of w "notifyLoop w pend s"] obtain l3 where
    l3: "scan_log (summaryStep w (notifyLoop w pend s)) = scan_log (notifyLoop w pend s) @ l3"
        "alerted l3 = []" "resolved l3 = []" "marked l3 = {}"
        "processedRequests (scan_agent (summaryStep w (notifyLoop w pend s)))
           = processedRequests (scan_agent (notifyLoop w pend s))"
        "scan_results (summaryStep w (notifyLoop w pend s)) = scan_results (notifyLoop w pend s)"
    by blast
  have s'2: "s' = summaryStep w (notifyLoop w pend s)"
    using s' pend(1) by simp
  have fresh: "distinct (map msg_id reqs) \<longrightarrow> alertsFresh (processedRequests a \<union> marked l1) l2"
  proof
    assume d: "distinct (map msg_id reqs)"
    have "subseq (map msg_id pend) (map msg_id reqs)"
      using pend(2) by (rule subseq_map)
    then have dp: "distinct (map msg_id pend)"
      using d by (rule subseq_distinct)
    have inj: "inj_on msg_id (set reqs)"
      using d by (simp add: distinct_map)
    have "\<forall>r \<in> set pend. msg_id r \<notin> processedRequests (scan_agent s)"
    proof
      fix r assume r: "r \<in> set pend"
      then have rr: "r \<in> set reqs" using pend(2) by (rule subseq_in_set [rotated])
      have "msg_id r \<notin> marked l1"
      proof
        assume "msg_id r \<in> marked l1"
        with l1(5) obtain r' where "r' \<in> set reqs" "msg_id r' = msg_id r"
          "checkForReply_call w r' = Inr True" by blast
        with inj rr have "r' = r" by (auto dest: inj_onD)
        with \<open>checkForReply_call w r' = Inr True\<close> pend(3) r show False by auto
      qed
      with pend(3) r l1(3) show "msg_id r \<notin> processedRequests (scan_agent s)" by auto
    qed
    with dp l2(6) l1(3) show "alertsFresh (processedRequests a \<union> marked l1) l2" by simp
  qed
  show thesis
  proof (rule that [of l1 l2 l3 pend])
    show "scan_log s' = l1 @ l2 @ l3" using s'2 l1(1) l2(1) l3(1) by simp
    show "processedRequests (scan_agent s') = processedRequests a \<union> marked l1 \<union> marked l2"
      using s'2 l1(3) l2(5) l3(5) by simp
    show "\<forall>r \<in> set (resolved l1).
        r \<in> set reqs \<and> \<not> getEmailAgeHours (clock_eval w r) r < real_of_int T
        \<and> (\<forall>msg. checkForReply_call w r \<noteq> Inl msg)"
      using l1(4,6) by auto
    show "scan_results s' = \<lparr>checked_requests = length reqs, pending_requests = length pend,
        notifications_sent = length pend, errors = []\<rparr>"
      using s'2 l3(6) l2(7) pend(4) by simp
  qed (use l1 l2 l3 pend fresh in simp_all)
qed



lemma thrown_anatomy:
  assumes ev: "evaluateLoop w T reqs (initialScan a reqs) = (Some msg, s)"
  obtains l r and pend :: "email list" where
    "scan_log s = l @ [CheckForReply r]" "r \<in> set reqs" "checkForReply_call w r = Inl msg"
    "alerted (scan_log s) = []"
    "processedRequests (scan_agent s) = processedRequests a \<union> marked (scan_log s)"
    "\<forall>r \<in> set (resolved (scan_log s)).
        r \<in> set reqs \<and> \<not> getEmailAgeHours (clock_eval w r) r < real_of_int T"
    "\<forall>i \<in> marked (scan_log s). \<exists>r \<in> set reqs. msg_id r = i
        \<and> \<not> getEmailAgeHours (clock_eval w r) r < real_of_int T"
    "scan_results s = \<lparr>checked_requests = length reqs, pending_requests = length pend,
        notifications_sent = 0, errors = []\<rparr>"
proof -
  from evaluateLoop_thrown [OF ev] obtain l r where
    t: "scan_log s = l @ [CheckForReply r]" "r \<in> set reqs" "checkForReply_call w r = Inl msg"
    by (auto simp: initialScan_def)
  from evaluateLoop_log [OF ev] obtain l1 where
    l1: "scan_log s = l1" "alerted l1 = []"
        "processedRequests (scan_agent s) = processedRequests a \<union> marked l1"
        "\<forall>r \<in> set (resolved l1).
              r \<in> set reqs \<and> \<not> getEmailAgeHours (clock_eval w r) r < real_of_int T"
        "\<forall>i \<in> marked l1. \<exists>r \<in> set reqs. msg_id r = i
              \<and> \<not> getEmailAgeHours (clock_eval w r) r < real_of_int T
              \<and> checkForReply_call w r = Inr True"
    by (auto simp: initialScan_def)
  from evaluateLoop_queue [OF ev] obtain pend where
    pend: "pendingRequests s = pend"
          "scan_results s = \<lparr>checked_requests = length reqs, pending_requests = length pend,
            notifications_sent = 0, errors = []\<rparr>"
    by (auto simp: initialScan_def results0_def)
  show thesis
  proof (rule that [of l r pend])
    show "\<forall>i \<in> marked (scan_log s). \<exists>r \<in> set reqs. msg_id r = i
        \<and> \<not> getEmailAgeHours (clock_eval w r) r < real_of_int T"
      using l1(1,5) by blast
  qed (use t l1 pend(2) in simp_all)
qed

lemma runOnce_log:
  assumes run: "runOnce w T a = (out, a', evs)"
  shows "processedRequests a' = processedRequests a \<union> marked evs
    \<and> (uniqueIds w T \<longrightarrow> alertsFresh (processedRequests a) evs)
    \<and> (\<forall>res. out = Inr res \<longrightarrow> notifications_sent res = length (alerted evs))
    \<and> (\<forall>res. out = Inr res \<and> errors res = [] \<longrightarrow>
          pending_requests res = length (alerted evs))
    \<and> (\<forall>r \<in> set (resolved evs). \<exists>reqs. findLeaveRequests_call w (daysBack T) = Inr reqs
          \<and> r \<in> set reqs \<and> \<not> getEmailAgeHours (clock_eval w r) r < real_of_int T)
    \<and> (\<forall>i \<in> marked evs. \<exists>reqs r. findLeaveRequests_call w (daysBack T) = Inr reqs
          \<and> r \<in> set reqs \<and> msg_id r = i
          \<and> \<not> getEmailAgeHours (clock_eval w r) r < real_of_int T)
    \<and> (\<forall>r \<in> set (alerted evs). msg_id r \<in> processedRequests a'
          \<and> (\<exists>reqs. findLeaveRequests_call w (daysBack T) = Inr reqs \<and> r \<in> set reqs))
    \<and> (\<forall>r \<in> set (alerted evs). msg_id r \<notin> processedRequests a
          \<and> \<not> getEmailAgeHours (clock_eval w r) r < real_of_int T)"
proof (cases rule: runOnce_cases [of w T a])
  case (auth msg)
  with run show ?thesis by auto
next
  case (find msg)
  with run show ?thesis by (auto simp: results0_def)
next
  case (thrown reqs msg s)
  from thrown(3) obtain pend :: "email list" where
    t: "alerted (scan_log s) = []"
    "processedRequests (scan_agent s) = processedRequests a \<union> marked (scan_log s)"
    "\<forall>r \<in> set (resolved (scan_log s)).
        r \<in> set reqs \<and> \<not> getEmailAgeHours (clock_eval w r) r < real_of_int T"
    "\<forall>i \<in> marked (scan_log s). \<exists>r \<in> set reqs. msg_id r = i
        \<and> \<not> getEmailAgeHours (clock_eval w r) r < real_of_int T"
    "scan_results s = \<lparr>checked_requests = length reqs, pending_requests = length pend,
        notifications_sent = 0, errors = []\<rparr>"
    by (rule thrown_anatomy) blast
  from run thrown(4) have eq: "out = Inr ((scan_results s)\<lparr>errors := errors (scan_results s) @ [errorMsg msg]\<rparr>)"
    "a' = scan_agent s" "evs = scan_log s"
    by simp_all
  show ?thesis
    unfolding eq using t thrown(2)
    by (auto simp: alertsFresh_no_alerts)
next
  case (completed reqs s s')
  from completed(3,4) obtain l1 l2 l3 pend where
    c: "scan_log s' = l1 @ l2 @ l3"
    "alerted l1 = []" "alerted l2 = pend" "alerted l3 = []"
    "resolved l2 = []" "resolved l3 = []"
    "marked l2 = msg_id ` set pend" "marked l3 = {}"
    "processedRequests (scan_agent s') = processedRequests a \<union> marked l1 \<union> marked l2"
    "\<forall>r \<in> set (resolved l1).
        r \<in> set reqs \<and> \<not> getEmailAgeHours (clock_eval w r) r < real_of_int T
        \<and> (\<forall>msg. checkForReply_call w r \<noteq> Inl msg)"
    "\<forall>i \<in> marked l1. \<exists>r \<in> set reqs. msg_id r = i
        \<and> \<not> getEmailAgeHours (clock_eval w r) r < real_of_int T
        \<and> checkForReply_call w r = Inr True"
    "subseq pend reqs"
    "\<forall>r \<in> set pend. checkForReply_call w r = Inr False \<and> msg_id r \<notin> processedRequests a
        \<and> \<not> getEmailAgeHours (clock_eval w r) r < real_of_int T"
    "scan_results s' = \<lparr>checked_requests = length reqs, pending_requests = length pend,
        notifications_sent = length pend, errors = []\<rparr>"
    "distinct (map msg_id reqs) \<longrightarrow> alertsFresh (processedRequests a \<union> marked l1) l2"
    by (rule completed_anatomy)
  from run completed(5) have eq: "out = Inr (scan_results s')" "a' = scan_agent s'" "evs = scan_log s'"
    by simp_all
  have sub: "\<forall>r \<in> set pend. r \<in> set reqs"
    using c(12) by (auto intro: subseq_in_set)
  have p1: "processedRequests a' = processedRequests a \<union> marked evs"
    unfolding eq c(1) using c(8,9) by (auto simp: marked_append)
  have p2: "uniqueIds w T \<longrightarrow> alertsFresh (processedRequests a) evs"
    unfolding eq c(1) using c(2,4,15) completed(2)
    by (simp add: uniqueIds_def alertsFresh_append alertsFresh_no_alerts)
  have p3: "\<forall>res. out = Inr res \<longrightarrow> notifications_sent res = length (alerted evs)"
    unfolding eq c(1) using c(2,3,4,14) by (simp add: alerted_append)
  have p4: "\<forall>res. out = Inr res \<and> errors res = [] \<longrightarrow>
          pending_requests res = length (alerted evs)"
    unfolding eq c(1) using c(2,3,4,14) by (simp add: alerted_append)
  have p5: "\<forall>r \<in> set (resolved evs). \<exists>reqs. findLeaveRequests_call w (daysBack T) = Inr reqs
          \<and> r \<in> set reqs \<and> \<not> getEmailAgeHours (clock_eval w r) r < real_of_int T"
    unfolding eq c(1) using c(5,6,10) completed(2) by (simp add: resolved_append)
  have p6: "\<forall>i \<in> marked evs. \<exists>reqs r. findLeaveRequests_call w (daysBack T) = Inr reqs
          \<and> r \<in> set reqs \<and> msg_id r = i
          \<and> \<not> getEmailAgeHours (clock_eval w r) r < real_of_int T"
  proof
    fix i assume "i \<in> marked evs"
    then have "i \<in> marked l1 \<or> i \<in> msg_id ` set pend"
      unfolding eq c(1) using c(7,8) by (auto simp: marked_append)
    then show "\<exists>reqs r. findLeaveRequests_call w (daysBack T) = Inr reqs
          \<and> r \<in> set reqs \<and> msg_id r = i
          \<and> \<not> getEmailAgeHours (clock_eval w r) r < real_of_int T"
      using c(11,13) sub completed(2) by auto
  qed
  have p7: "\<forall>r \<in> set (alerted evs). msg_id r \<in> processedRequests a'
          \<and> (\<exists>reqs. findLeaveRequests_call w (daysBack T) = Inr reqs \<and> r \<in> set reqs)"
    unfolding eq c(1) using c(2,3,4,7,9) sub completed(2) by (auto simp: alerted_append)
  have p8: "\<forall>r \<in> set (alerted evs). msg_id r \<notin> processedRequests a
          \<and> \<not> getEmailAgeHours (clock_eval w r) r < real_of_int T"
    unfolding eq c(1) using c(2,3,4,13) by (simp add: alerted_append)
  from p1 p2 p3 p4 p5 p6 p7 p8 show ?thesis by blast
qed

subsection \<open>Strings and the classifier\<close>

lemma classify_filter:
  "classify toLowerCase keywords emails = filter (isLeaveRequest toLowerCase keywords) emails"
  by (induction emails) simp_all

lemma markers_not_space:
  "\<forall>c \<in> set (js ''re:''). \<not> isWhiteSpace c"
  "\<forall>c \<in> set (js ''fwd:''). \<not> isWhiteSpace c"
  "\<forall>c \<in> set (js ''fw:''). \<not> isWhiteSpace c"
  by (simp_all add: js_def isWhiteSpace_def)

lemma dropWhile_none: "\<forall>c \<in> set p. \<not> P c \<Longrightarrow> dropWhile P p = p"
  by (cases p) simp_all

text \<open>What \<open>trim\<close> returns is the one part of the string between a run of white space at
  each end that neither starts nor ends with white space.\<close>

lemma rev_split: "rev (dropWhile P (rev xs)) @ rev (takeWhile P (rev xs)) = xs"
proof -
  have "rev (takeWhile P (rev xs) @ dropWhile P (rev xs)) = xs"
    by (simp only: takeWhile_dropWhile_id rev_rev_ident)
  then show ?thesis by (simp only: rev_append)
qed

lemma trim_unique:
  assumes s: "s = lead @ core @ trail"
    and lead: "\<forall>c \<in> set lead. isWhiteSpace c" and trail: "\<forall>c \<in> set trail. isWhiteSpace c"
    and core: "core = [] \<or> (\<not> isWhiteSpace (hd core) \<and> \<not> isWhiteSpace (last core))"
  shows "trim s = core"
proof (cases "core = []")
  case True
  then have "\<forall>c \<in> set s. isWhiteSpace c" using s lead trail by auto
  then have d: "dropWhile isWhiteSpace s = []"
    using dropWhile_eq_Nil_conv [of isWhiteSpace s] by blast
  show ?thesis unfolding trim_def d using True by simp
next
  case False
  then obtain c cs where c: "core = c # cs" by (cases core) auto
  have nc: "\<not> isWhiteSpace c" using core c by simp
  have 1: "dropWhile isWhiteSpace s = core @ trail"
    unfolding s using lead nc c by (simp add: dropWhile_append2)
  obtain b bs where b: "rev core = b # bs" using False by (cases "rev core") auto
  then have "b = last core" using False by (metis hd_rev list.sel(1))
  then have nb: "\<not> isWhiteSpace b" using core False by simp
  have "dropWhile isWhiteSpace (rev trail @ rev core) = dropWhile isWhiteSpace (rev core)"
    by (rule dropWhile_append2) (use trail in simp)
  then have "dropWhile isWhiteSpace (rev (core @ trail)) = dropWhile isWhiteSpace (rev core)"
    by simp
  also have "\<dots> = rev core"
    unfolding b using nb by simp
  finally show ?thesis using 1 by (simp add: trim_def)
qed

lemma trim_exists:
  "\<exists>lead trail. s = lead @ trim s @ trail
      \<and> (\<forall>c \<in> set lead. isWhiteSpace c) \<and> (\<forall>c \<in> set trail. isWhiteSpace c)
      \<and> (trim s = [] \<or> (\<not> isWhiteSpace (hd (trim s)) \<and> \<not> isWhiteSpace (last (trim s))))"
proof -
  let ?t = "dropWhile isWhiteSpace s"
  let ?u = "dropWhile isWhiteSpace (rev ?t)"
  let ?lead = "takeWhile isWhiteSpace s"
  let ?trail = "rev (takeWhile isWhiteSpace (rev ?t))"
  have s: "s = ?lead @ ?t" by simp
  have tr: "trim s = rev ?u" by (simp add: trim_def)
  have t: "?t = trim s @ ?trail"
    unfolding tr by (rule rev_split [symmetric])
  have lead: "\<forall>c \<in> set ?lead. isWhiteSpace c"
    by (auto dest: set_takeWhileD)
  have trail: "\<forall>c \<in> set ?trail. isWhiteSpace c"
    by (auto dest: set_takeWhileD)
  have ends: "trim s = [] \<or> (\<not> isWhiteSpace (hd (trim s)) \<and> \<not> isWhiteSpace (last (trim s)))"
  proof (cases "trim s = []")
    case True
    then show ?thesis by simp
  next
    case False
    then have u: "?u \<noteq> []" by (simp add: tr)
    have "last (trim s) = hd ?u"
      unfolding tr using u by (simp add: last_rev)
    moreover have "\<not> isWhiteSpace (hd ?u)"
      using u by (rule hd_dropWhile)
    ultimately have l: "\<not> isWhiteSpace (last (trim s))" by simp
    have tn: "?t \<noteq> []" using t False by (metis Nil_is_append_conv)
    have "hd ?t = hd (trim s)" using t False by (metis hd_append2)
    moreover have "\<not> isWhiteSpace (hd ?t)"
      using tn by (rule hd_dropWhile)
    ultimately show ?thesis using l by simp
  qed
  have "s = ?lead @ trim s @ ?trail"
    using s t by (metis append_assoc)
  with lead trail ends show ?thesis by blast
qed

lemma trim_keeps_marker:
  assumes lead: "\<forall>c \<in> set lead. isWhiteSpace c" and m: "\<forall>c \<in> set marker. \<not> isWhiteSpace c"
  shows "prefix marker (trim (lead @ marker @ rest))"
proof (cases "marker = []")
  case True
  then show ?thesis by simp
next
  case False
  then obtain c cs where c: "marker = c # cs" by (cases marker) auto
  have 1: "dropWhile isWhiteSpace (lead @ marker @ rest) = marker @ rest"
    using lead m c by (simp add: dropWhile_append2)
  have 2: "dropWhile isWhiteSpace (rev marker) = rev marker"
    using m by (simp add: dropWhile_none)
  have "dropWhile isWhiteSpace (rev rest @ rev marker)
      = (if \<forall>x \<in> set (rev rest). isWhiteSpace x then rev marker
         else dropWhile isWhiteSpace (rev rest) @ rev marker)"
    by (simp add: dropWhile_append 2)
  then show ?thesis
    unfolding trim_def 1 by (simp split: if_splits)
qed

lemma ex_subjects:
  "exampleToLowerCase (or_empty (subject ex_original)) = [] @ js ''leave request - john'' @ []"
  "exampleToLowerCase (or_empty (subject ex_reply)) = [] @ js ''re:'' @ js '' leave request - john''"
  "exampleToLowerCase (js ''leave request'') = js ''leave request''"
  "sublist (js ''leave request'') (js ''leave request - john'')"
  "\<not> prefix (js ''re:'') (js ''leave request - john'')"
  "\<not> prefix (js ''fwd:'') (js ''leave request - john'')"
  "\<not> prefix (js ''fw:'') (js ''leave request - john'')"
  "\<not> isWhiteSpace (hd (js ''leave request - john''))"
  "\<not> isWhiteSpace (last (js ''leave request - john''))"
  "exampleToLowerCase [] = []"
  by code_simp+

subsection \<open>Reply resolver\<close>

lemma replyLoop_iff:
  "replyLoop toLowerCase mb original firstId messages =
     (\<exists>m \<in> set messages.
        tm_id m \<noteq> msg_id original \<and> Some (tm_id m) \<noteq> firstId
        \<and> parse_date (internalDate m) > parse_date (internal_date original)
        \<and> (\<exists>d. getEmailDetails mb (tm_id m) = Some d
              \<and> (or_empty (msg_from d) \<noteq> or_empty (msg_from original)
                   \<or> prefix (js ''re:'') (toLowerCase (or_empty (subject d))))))"
  by (induction messages) (auto split: option.splits)

text \<open>The head of the stably sorted thread is the first message, in provider order, among
  those with the least date.\<close>

lemma hd_insort_key:
  "hd (insort_key k x ys) = (if ys = [] \<or> k x \<le> k (hd ys) then x else hd ys)"
  by (cases ys) simp_all

lemma sort_key_not_Nil: "sort_key k xs \<noteq> [] \<longleftrightarrow> xs \<noteq> []"
  by (metis length_sort length_0_conv)

lemma hd_sort_key_stable:
  assumes "\<forall>x \<in> set pre. k e < k x" and "\<forall>x \<in> set post. k e \<le> k x"
  shows "hd (sort_key k (pre @ e # post)) = e"
  using assms
proof (induction pre)
  case Nil
  show ?case
  proof (cases "post = []")
    case True
    then show ?thesis by simp
  next
    case False
    then have ne: "sort_key k post \<noteq> []" by (simp add: sort_key_not_Nil)
    then have "hd (sort_key k post) \<in> set (sort_key k post)" by (rule hd_in_set)
    then have "hd (sort_key k post) \<in> set post" by simp
    with Nil.prems(2) have "k e \<le> k (hd (sort_key k post))" by blast
    then show ?thesis
      by (simp add: sort_key_def [symmetric] hd_insort_key)
  qed
next
  case (Cons p pre)
  then have ih: "hd (sort_key k (pre @ e # post)) = e" by simp
  have ne: "sort_key k (pre @ e # post) \<noteq> []" by (simp add: sort_key_not_Nil)
  have "\<not> k p \<le> k e" using Cons.prems(1) by auto
  then show ?case
    using ih ne by (simp add: sort_key_def [symmetric] hd_insort_key)
qed

lemma firstMessageId_stable:
  assumes "thread = pre @ e # post"
    and "\<forall>x \<in> set pre. parse_date (internalDate e) < parse_date (internalDate x)"
    and "\<forall>x \<in> set post. parse_date (internalDate e) \<le> parse_date (internalDate x)"
  shows "firstMessageId thread = Some (tm_id e)"
proof -
  let ?k = "\<lambda>m. parse_date (internalDate m)"
  have h: "hd (sort_key ?k thread) = e"
    unfolding assms(1) using assms(2,3) by (rule hd_sort_key_stable)
  have "sort_key ?k thread \<noteq> []" unfolding assms(1) by (simp add: sort_key_not_Nil)
  then obtain y ys where "sort_key ?k thread = y # ys" by (cases "sort_key ?k thread") auto
  with h show ?thesis by (simp add: firstMessageId_def)
qed

lemma earliest_exists:
  fixes k :: "'a \<Rightarrow> int"
  shows "thread \<noteq> [] \<Longrightarrow>
    \<exists>pre e post. thread = pre @ e # post
      \<and> (\<forall>x \<in> set pre. k e < k x) \<and> (\<forall>x \<in> set post. k e \<le> k x)"
proof (induction thread)
  case Nil
  then show ?case by simp
next
  case (Cons x xs)
  show ?case
  proof (cases "xs = []")
    case True
    then show ?thesis by (intro exI [of _ "[]"] exI [of _ x]) simp
  next
    case False
    from Cons.IH [OF this] obtain pre e post where
      d: "xs = pre @ e # post" "\<forall>y \<in> set pre. k e < k y" "\<forall>y \<in> set post. k e \<le> k y"
      by blast
    show ?thesis
    proof (cases "k x \<le> k e")
      case True
      then have "\<forall>y \<in> set xs. k x \<le> k y" using d by fastforce
      then show ?thesis by (intro exI [of _ "[]"] exI [of _ x] exI [of _ xs]) simp
    next
      case False
      then show ?thesis
        using d by (intro exI [of _ "x # pre"] exI [of _ e] exI [of _ post]) auto
    qed
  qed
qed

lemma not_first_iff:
  assumes "thread \<noteq> []"
  shows "Some i \<noteq> firstMessageId thread \<longleftrightarrow>
    (\<forall>pre e post. thread = pre @ e # post
        \<and> (\<forall>x \<in> set pre. parse_date (internalDate e) < parse_date (internalDate x))
        \<and> (\<forall>x \<in> set post. parse_date (internalDate e) \<le> parse_date (internalDate x))
      \<longrightarrow> i \<noteq> tm_id e)"
proof
  assume ne: "Some i \<noteq> firstMessageId thread"
  show "\<forall>pre e post. thread = pre @ e # post
        \<and> (\<forall>x \<in> set pre. parse_date (internalDate e) < parse_date (internalDate x))
        \<and> (\<forall>x \<in> set post. parse_date (internalDate e) \<le> parse_date (internalDate x))
      \<longrightarrow> i \<noteq> tm_id e"
  proof (intro allI impI)
    fix pre e post
    assume "thread = pre @ e # post
        \<and> (\<forall>x \<in> set pre. parse_date (internalDate e) < parse_date (internalDate x))
        \<and> (\<forall>x \<in> set post. parse_date (internalDate e) \<le> parse_date (internalDate x))"
    then have "firstMessageId thread = Some (tm_id e)"
      by (blast intro: firstMessageId_stable)
    with ne show "i \<noteq> tm_id e" by auto
  qed
next
  assume a: "\<forall>pre e post. thread = pre @ e # post
        \<and> (\<forall>x \<in> set pre. parse_date (internalDate e) < parse_date (internalDate x))
        \<and> (\<forall>x \<in> set post. parse_date (internalDate e) \<le> parse_date (internalDate x))
      \<longrightarrow> i \<noteq> tm_id e"
  from earliest_exists [OF assms, of "\<lambda>m. parse_date (internalDate m)"]
  obtain pre e post where
    d: "thread = pre @ e # post"
       "\<forall>x \<in> set pre. parse_date (internalDate e) < parse_date (internalDate x)"
       "\<forall>x \<in> set post. parse_date (internalDate e) \<le> parse_date (internalDate x)"
    by blast
  then have "firstMessageId thread = Some (tm_id e)" by (rule firstMessageId_stable)
  moreover have "i \<noteq> tm_id e" using a d by blast
  ultimately show "Some i \<noteq> firstMessageId thread" by simp
qed

lemma ex_details: "getEmailDetails (ex_mailbox th) ''m2'' = Some ex_reply"
  by (simp add: getEmailDetails_def ex_mailbox_def ex_reply_def)

lemma ex_reply_facts:
  "thread_id ex_original = Some ''t1''" "msg_id ex_original = ''m1''"
  "internal_date ex_original = Some 3600000"
  "or_empty (msg_from ex_original) = ''me@example.com''"
  "or_empty (msg_from ex_reply) = ''boss@example.com''"
  by (simp_all add: ex_original_def ex_reply_def or_empty_def)

subsection \<open>Token pruning\<close>

lemma failedTokens_Cons:
  "failedTokens (t # tokens) (success # resps) =
     (if success then failedTokens tokens resps else insert t (failedTokens tokens resps))"
  by (simp add: failedTokens_def)

lemma failedTokens_Nil: "failedTokens tokens [] = {}"
  by (simp add: failedTokens_def)

lemma pruneLoop_result:
  "idx + length resps \<le> length tokens \<Longrightarrow>
   pruneLoop tokens idx resps registry =
     (True, filter (\<lambda>t. t \<notin> failedTokens (drop idx tokens) resps) registry)"
proof (induction resps arbitrary: idx registry)
  case Nil
  then show ?case by (simp add: failedTokens_Nil)
next
  case (Cons success resps)
  have le: "Suc idx + length resps \<le> length tokens" using Cons.prems by simp
  have lt: "idx < length tokens" using Cons.prems by simp
  have dr: "drop idx tokens = tokens ! idx # drop (Suc idx) tokens"
    using lt by (simp add: Cons_nth_drop_Suc)
  show ?case
  proof (cases success)
    case True
    then show ?thesis
      using Cons.IH [OF le, of registry] by (simp add: dr failedTokens_Cons)
  next
    case False
    have "filter (\<lambda>t. t \<notin> failedTokens (drop (Suc idx) tokens) resps)
            (removeAll (tokens ! idx) registry)
        = filter (\<lambda>t. t \<notin> insert (tokens ! idx) (failedTokens (drop (Suc idx) tokens) resps))
            registry"
      by (induction registry) auto
    then show ?thesis
      using False lt Cons.IH [OF le, of "removeAll (tokens ! idx) registry"]
      by (simp add: dr failedTokens_Cons)
  qed
qed

subsection \<open>Web buffer\<close>

lemma sendToWebClients_buffer [simp]:
  "webNotifications (sendToWebClients b ns) = webNotifications ns"
  "isProduction (sendToWebClients b ns) = isProduction ns"
  by (simp_all add: sendToWebClients_def)

lemma dispatchAll_production:
  "isProduction ns \<Longrightarrow>
   webNotifications (dispatchAll b calls ns)
     = webNotifications ns @ map recordOf (filter emitsRecord calls)
   \<and> isProduction (dispatchAll b calls ns)"
proof (induction calls arbitrary: ns)
  case Nil
  then show ?case by simp
next
  case (Cons c calls)
  show ?case
  proof (cases c)
    case (Pending request hoursOld)
    let ?ns = "snd (notifyPendingLeaveRequest b ns request hoursOld)"
    have 1: "isProduction ?ns" "webNotifications ?ns = webNotifications ns @ [recordOf c]"
      using Cons.prems Pending by (simp_all add: notifyPendingLeaveRequest_def Let_def)
    from Cons.IH [OF 1(1)] show ?thesis using Pending 1(2) by simp
  next
    case (Summary count)
    let ?ns = "snd (notifySummary b ns count)"
    have 1: "isProduction ?ns"
      "webNotifications ?ns = webNotifications ns @ (if count = 0 then [] else [recordOf c])"
      using Cons.prems Summary by (simp_all add: notifySummary_def Let_def)
    from Cons.IH [OF 1(1)] show ?thesis using Summary 1(2) by simp
  next
    case Test
    let ?ns = "snd (testNotification b ns)"
    have 1: "isProduction ?ns" "webNotifications ?ns = webNotifications ns"
      using Cons.prems Test by (simp_all add: testNotification_def)
    from Cons.IH [OF 1(1)] show ?thesis using Test 1(2) by simp
  qed
qed

lemma slice_recent:
  "0 < limit \<Longrightarrow> slice_from (- limit) xs = drop (length xs - nat limit) xs"
  by (simp add: slice_from_def max_def nat_diff_distrib')

lemma filter_emits_replicate:
  "filter emitsRecord (replicate n (Pending request hoursOld)) = replicate n (Pending request hoursOld)"
  by (induction n) simp_all

subsection \<open>The repository's client lists no id twice\<close>

text \<open>\<^verbatim>\<open>searchEmails\<close> keeps the listed ids, in order, for which the details could be
  fetched, so a listing without repetition gives candidates without repetition.\<close>

lemma collectDetails_ids:
  "map msg_id (collectDetails mb ids) = filter (\<lambda>i. getEmailDetails mb i \<noteq> None) ids"
proof (induction ids)
  case Nil
  then show ?case by simp
next
  case (Cons i ids)
  then show ?case
    by (auto simp: getEmailDetails_def split: option.splits)
qed

lemma gmailWorld_uniqueIds:
  assumes "\<And>ids. messages_list mb (daysBack T) = Some ids \<Longrightarrow> distinct ids"
  shows "uniqueIds (gmailWorld toLowerCase mb keywords t1 t2 b) T"
proof -
  have "distinct (map msg_id (searchEmails mb (daysBack T)))"
    using assms by (auto simp: searchEmails_def collectDetails_ids split: option.splits)
  then have "distinct (map msg_id (classify toLowerCase keywords (searchEmails mb (daysBack T))))"
    by (simp add: classify_filter distinct_map_filter)
  then show ?thesis
    by (simp add: uniqueIds_def gmailWorld_def findLeaveRequests_def)
qed

subsection \<open>Scans of the example worlds\<close>

lemma ex_run_alone:
  "runOnce (ex_world ex_thread_alone 262800000) 48 ex_agent =
     (Inr \<lparr>checked_requests = 1, pending_requests = 1, notifications_sent = 1, errors = []\<rparr>,
      ex_agent\<lparr>processedRequests := {''m1''}\<rparr>,
      [CheckForReply ex_original, NotifyPending ex_original False, MarkProcessed ''m1'',
       NotifySummary 1])"
  by code_simp


lemma ex_run_replied:
  "runOnce (ex_world ex_thread_replied 262800000) 48 ex_agent =
     (Inr \<lparr>checked_requests = 1, pending_requests = 0, notifications_sent = 0, errors = []\<rparr>,
      ex_agent\<lparr>processedRequests := {''m1''}\<rparr>,
      [CheckForReply ex_original, MarkProcessed ''m1''])"
  by code_simp


lemma ex_run_throwing:
  "runOnce ex_throwing 48 ex_agent =
     (Inr \<lparr>checked_requests = 2, pending_requests = 0, notifications_sent = 0,
            errors = [''Error during agent execution: quota exceeded'']\<rparr>,
      ex_agent, [CheckForReply ex_original])"
  by code_simp

lemma ex_run_unauthenticated:
  "runOnce ex_unauthenticated 48 ex_agent = (Inl ''Gmail credentials file not found'', ex_agent, [])"
  by code_simp

lemma ex_original_id: "msg_id ex_original = ''m1''"
  by (simp add: ex_original_def)




lemma ex_throwing_facts:
  "checkForReply_call ex_throwing ex_original = Inl ''quota exceeded''"
  "checkForReply_call ex_throwing ex_second = Inr False"
  "\<not> getEmailAgeHours (clock_eval ex_throwing ex_second) ex_second < real_of_int 48"
  "authenticate ex_unauthenticated = Some ''Gmail credentials file not found''"
  "errorMsg ''quota exceeded'' = ''Error during agent execution: quota exceeded''"
  by code_simp+

subsection \<open>Repeated scans and errors\<close>





lemma runOnce_resolver_error:
  assumes run: "runOnce w T a = (out, a', evs)"
    and r: "CheckForReply r \<in> set evs" and thrown: "checkForReply_call w r = Inl msg"
  shows "(\<exists>res. out = Inr res \<and> errors res = [errorMsg msg] \<and> notifications_sent res = 0)
    \<and> last evs = CheckForReply r \<and> alerted evs = []"
proof (cases rule: runOnce_cases [of w T a])
  case (auth msg')
  with run r show ?thesis by simp
next
  case (find msg')
  with run r show ?thesis by simp
next
  case (thrown reqs msg' s)
  from run thrown(4) have eq:
    "out = Inr ((scan_results s)\<lparr>errors := errors (scan_results s) @ [errorMsg msg']\<rparr>)"
    "evs = scan_log s"
    by simp_all
  from evaluateLoop_log [OF thrown(3)] obtain l where
    l: "scan_log s = l" "alerted l = []"
       "\<forall>r \<in> set (resolved l). \<forall>msg. checkForReply_call w r = Inl msg \<longrightarrow>
              Some msg' = Some msg \<and> last l = CheckForReply r"
    by (auto simp: initialScan_def)
  from evaluateLoop_queue [OF thrown(3)] obtain pend where
    p: "pendingRequests s = pend"
       "scan_results s = \<lparr>checked_requests = length reqs, pending_requests = length pend,
            notifications_sent = 0, errors = []\<rparr>"
    by (auto simp: initialScan_def results0_def)
  have "r \<in> set (resolved l)"
    using r eq(2) l(1) by (simp add: resolved_set)
  with l(3) assms(3) have "msg' = msg" "last l = CheckForReply r" by auto
  then show ?thesis
    unfolding eq using l(1,2) p(2) by simp
next
  case (completed reqs s s')
  from completed(3,4) obtain l1 l2 l3 where
    c: "scan_log s' = l1 @ l2 @ l3" "resolved l2 = []" "resolved l3 = []"
      "\<forall>r \<in> set (resolved l1).
        r \<in> set reqs \<and> \<not> getEmailAgeHours (clock_eval w r) r < real_of_int T
        \<and> (\<forall>msg. checkForReply_call w r \<noteq> Inl msg)"
    by (rule completed_anatomy) blast
  from run completed(5) have "evs = scan_log s'" by simp
  with r c(1,2,3) have "r \<in> set (resolved l1)"
    by (simp add: resolved_set [symmetric] resolved_append)
  with c(4) assms(3) show ?thesis by blast
qed

section \<open>Properties\<close>

subsection \<open>Reply detection\<close>

text \<open>
  C1. For an original with a thread id and a thread the provider returns, \<^verbatim>\<open>checkForReply\<close>
  answers true exactly when the thread holds a message that has neither the original's id
  nor the id of the earliest message of the thread (the first, in the order the provider
  gave, of the messages with the least \<^verbatim>\<open>internalDate\<close>, which is where an ascending stable
  sort puts it), that is dated strictly after the original, and whose fetched details
  name another sender or a subject that starts, lower-cased, with \<^verbatim>\<open>re:\<close>. A thread that
  holds only the original gives false, and so does an original without a thread id.
\<close>

theorem checkForReply_spec:
  "(thread_id original = Some threadId \<and> threadId \<noteq> [] \<and> threads_get mb threadId = Some thread
      \<longrightarrow> checkForReply toLowerCase mb original =
         (\<exists>m \<in> set thread.
            tm_id m \<noteq> msg_id original
            \<and> (\<forall>pre e post. thread = pre @ e # post
                  \<and> (\<forall>x \<in> set pre. parse_date (internalDate e) < parse_date (internalDate x))
                  \<and> (\<forall>x \<in> set post. parse_date (internalDate e) \<le> parse_date (internalDate x))
                \<longrightarrow> tm_id m \<noteq> tm_id e)
            \<and> parse_date (internalDate m) > parse_date (internal_date original)
            \<and> (\<exists>d. getEmailDetails mb (tm_id m) = Some d
                  \<and> (or_empty (msg_from d) \<noteq> or_empty (msg_from original)
                       \<or> prefix (js ''re:'') (toLowerCase (or_empty (subject d)))))))
   \<and> (thread_id original = Some threadId \<and> threads_get mb threadId = Some thread
        \<and> (\<forall>m \<in> set thread. tm_id m = msg_id original)
      \<longrightarrow> \<not> checkForReply toLowerCase mb original)
   \<and> (thread_id original = None \<longrightarrow> \<not> checkForReply toLowerCase mb original)"
proof (intro conjI impI)
  assume h: "thread_id original = Some threadId \<and> threadId \<noteq> []
      \<and> threads_get mb threadId = Some thread"
  have first: "\<And>m. m \<in> set thread \<Longrightarrow>
      (Some (tm_id m) \<noteq> firstMessageId thread) =
      (\<forall>pre e post. thread = pre @ e # post
          \<and> (\<forall>x \<in> set pre. parse_date (internalDate e) < parse_date (internalDate x))
          \<and> (\<forall>x \<in> set post. parse_date (internalDate e) \<le> parse_date (internalDate x))
        \<longrightarrow> tm_id m \<noteq> tm_id e)"
    by (rule not_first_iff) auto
  have "checkForReply toLowerCase mb original
      = replyLoop toLowerCase mb original (firstMessageId thread) thread"
    using h by (simp add: checkForReply_def)
  also have "\<dots> = (\<exists>m \<in> set thread.
        tm_id m \<noteq> msg_id original \<and> Some (tm_id m) \<noteq> firstMessageId thread
        \<and> parse_date (internalDate m) > parse_date (internal_date original)
        \<and> (\<exists>d. getEmailDetails mb (tm_id m) = Some d
              \<and> (or_empty (msg_from d) \<noteq> or_empty (msg_from original)
                   \<or> prefix (js ''re:'') (toLowerCase (or_empty (subject d))))))"
    by (rule replyLoop_iff)
  also have "\<dots> = (\<exists>m \<in> set thread.
            tm_id m \<noteq> msg_id original
            \<and> (\<forall>pre e post. thread = pre @ e # post
                  \<and> (\<forall>x \<in> set pre. parse_date (internalDate e) < parse_date (internalDate x))
                  \<and> (\<forall>x \<in> set post. parse_date (internalDate e) \<le> parse_date (internalDate x))
                \<longrightarrow> tm_id m \<noteq> tm_id e)
            \<and> parse_date (internalDate m) > parse_date (internal_date original)
            \<and> (\<exists>d. getEmailDetails mb (tm_id m) = Some d
                  \<and> (or_empty (msg_from d) \<noteq> or_empty (msg_from original)
                       \<or> prefix (js ''re:'') (toLowerCase (or_empty (subject d))))))"
    by (rule bex_cong) (simp_all only: first)
  finally show "checkForReply toLowerCase mb original =
         (\<exists>m \<in> set thread.
            tm_id m \<noteq> msg_id original
            \<and> (\<forall>pre e post. thread = pre @ e # post
                  \<and> (\<forall>x \<in> set pre. parse_date (internalDate e) < parse_date (internalDate x))
                  \<and> (\<forall>x \<in> set post. parse_date (internalDate e) \<le> parse_date (internalDate x))
                \<longrightarrow> tm_id m \<noteq> tm_id e)
            \<and> parse_date (internalDate m) > parse_date (internal_date original)
            \<and> (\<exists>d. getEmailDetails mb (tm_id m) = Some d
                  \<and> (or_empty (msg_from d) \<noteq> or_empty (msg_from original)
                       \<or> prefix (js ''re:'') (toLowerCase (or_empty (subject d))))))" .
next
  assume "thread_id original = Some threadId \<and> threads_get mb threadId = Some thread
        \<and> (\<forall>m \<in> set thread. tm_id m = msg_id original)"
  then show "\<not> checkForReply toLowerCase mb original"
    by (auto simp: checkForReply_def replyLoop_iff)
next
  assume "thread_id original = None"
  then show "\<not> checkForReply toLowerCase mb original"
    by (simp add: checkForReply_def)
qed

theorem checkForReply_spec_witness:
  "checkForReply exampleToLowerCase (ex_mailbox ex_thread_replied) ex_original
   \<and> \<not> checkForReply exampleToLowerCase (ex_mailbox ex_thread_alone) ex_original
   \<and> \<not> checkForReply exampleToLowerCase (ex_mailbox ex_thread_replied)
          (ex_original\<lparr>thread_id := None\<rparr>)"
proof -
  let ?m2 = "\<lparr>tm_id = ''m2'', internalDate = Some 39600000\<rparr>"
  have t: "threads_get (ex_mailbox ex_thread_replied) ''t1'' = Some ex_thread_replied"
    "threads_get (ex_mailbox ex_thread_alone) ''t1'' = Some ex_thread_alone"
    by (simp_all add: ex_mailbox_def)
  have ne: "ex_thread_replied \<noteq> []" and mem: "?m2 \<in> set ex_thread_replied"
    by (simp_all add: ex_thread_replied_def)
  have "Some ''m2'' \<noteq> firstMessageId ex_thread_replied"
    by (simp add: firstMessageId_def ex_thread_replied_def parse_date_def)
  then have nf: "\<forall>pre e post. ex_thread_replied = pre @ e # post
        \<and> (\<forall>x \<in> set pre. parse_date (internalDate e) < parse_date (internalDate x))
        \<and> (\<forall>x \<in> set post. parse_date (internalDate e) \<le> parse_date (internalDate x))
      \<longrightarrow> ''m2'' \<noteq> tm_id e"
    using not_first_iff [OF ne, of "''m2''"] by blast
  have rhs: "\<exists>m \<in> set ex_thread_replied.
            tm_id m \<noteq> msg_id ex_original
            \<and> (\<forall>pre e post. ex_thread_replied = pre @ e # post
                  \<and> (\<forall>x \<in> set pre. parse_date (internalDate e) < parse_date (internalDate x))
                  \<and> (\<forall>x \<in> set post. parse_date (internalDate e) \<le> parse_date (internalDate x))
                \<longrightarrow> tm_id m \<noteq> tm_id e)
            \<and> parse_date (internalDate m) > parse_date (internal_date ex_original)
            \<and> (\<exists>d. getEmailDetails (ex_mailbox ex_thread_replied) (tm_id m) = Some d
                  \<and> (or_empty (msg_from d) \<noteq> or_empty (msg_from ex_original)
                       \<or> prefix (js ''re:'') (exampleToLowerCase (or_empty (subject d)))))"
    using nf by (intro bexI [of _ ?m2] mem) (simp add: ex_reply_facts ex_details parse_date_def)
  note spec1 = checkForReply_spec [of ex_original "''t1''" "ex_mailbox ex_thread_replied"
      ex_thread_replied exampleToLowerCase]
  have a: "checkForReply exampleToLowerCase (ex_mailbox ex_thread_replied) ex_original"
    using spec1 rhs t(1) ex_reply_facts(1) by simp
  have only: "\<forall>m \<in> set ex_thread_alone. tm_id m = msg_id ex_original"
    by (simp add: ex_thread_alone_def ex_reply_facts)
  have b: "\<not> checkForReply exampleToLowerCase (ex_mailbox ex_thread_alone) ex_original"
    using checkForReply_spec [of ex_original "''t1''" "ex_mailbox ex_thread_alone"
        ex_thread_alone exampleToLowerCase] only t(2) ex_reply_facts(1)
    by blast
  have c: "\<not> checkForReply exampleToLowerCase (ex_mailbox ex_thread_replied)
      (ex_original\<lparr>thread_id := None\<rparr>)"
    using checkForReply_spec [of "ex_original\<lparr>thread_id := None\<rparr>" "''t1''"
        "ex_mailbox ex_thread_replied" ex_thread_replied exampleToLowerCase]
    by simp
  from a b c show ?thesis by blast
qed

subsection \<open>Classification of leave requests\<close>

text \<open>
  C4, as amended. Write the lower-cased subject of a message as white space, a part that
  neither starts nor ends with white space, and white space again; that middle part is
  the subject lower-cased and trimmed. The filter of \<^verbatim>\<open>findLeaveRequests\<close> keeps a message
  exactly when that part starts with none of \<^verbatim>\<open>re:\<close>, \<^verbatim>\<open>fwd:\<close>, \<^verbatim>\<open>fw:\<close> and contains a
  lower-cased keyword. A message whose lower-cased subject, after leading white space,
  starts with \<^verbatim>\<open>re:\<close>, \<^verbatim>\<open>fwd:\<close> or \<^verbatim>\<open>fw:\<close> is excluded whatever the keywords are. A message
  with an empty or absent subject is excluded provided that no keyword lower-cases to the
  empty string (lower-casing the empty string gives the empty string).
\<close>

theorem classify_spec:
  "classify toLowerCase keywords emails =
     filter (\<lambda>e. \<exists>lead core trail.
               toLowerCase (or_empty (subject e)) = lead @ core @ trail
               \<and> (\<forall>c \<in> set lead. isWhiteSpace c) \<and> (\<forall>c \<in> set trail. isWhiteSpace c)
               \<and> (core = [] \<or> (\<not> isWhiteSpace (hd core) \<and> \<not> isWhiteSpace (last core)))
               \<and> \<not> prefix (js ''re:'') core \<and> \<not> prefix (js ''fwd:'') core
               \<and> \<not> prefix (js ''fw:'') core
               \<and> (\<exists>keyword \<in> set keywords. sublist (toLowerCase keyword) core))
       emails
   \<and> (\<forall>e \<in> set emails.
        (\<exists>lead marker rest. toLowerCase (or_empty (subject e)) = lead @ marker @ rest
            \<and> (\<forall>c \<in> set lead. isWhiteSpace c)
            \<and> (marker = js ''re:'' \<or> marker = js ''fwd:'' \<or> marker = js ''fw:''))
        \<longrightarrow> e \<notin> set (classify toLowerCase keywords emails))
   \<and> (toLowerCase [] = [] \<and> (\<forall>keyword \<in> set keywords. toLowerCase keyword \<noteq> []) \<longrightarrow>
        (\<forall>e \<in> set emails. subject e = None \<or> subject e = Some []
           \<longrightarrow> e \<notin> set (classify toLowerCase keywords emails)))"
proof (intro conjI)
  have keep: "\<And>e. isLeaveRequest toLowerCase keywords e =
      (\<exists>lead core trail.
               toLowerCase (or_empty (subject e)) = lead @ core @ trail
               \<and> (\<forall>c \<in> set lead. isWhiteSpace c) \<and> (\<forall>c \<in> set trail. isWhiteSpace c)
               \<and> (core = [] \<or> (\<not> isWhiteSpace (hd core) \<and> \<not> isWhiteSpace (last core)))
               \<and> \<not> prefix (js ''re:'') core \<and> \<not> prefix (js ''fwd:'') core
               \<and> \<not> prefix (js ''fw:'') core
               \<and> (\<exists>keyword \<in> set keywords. sublist (toLowerCase keyword) core))"
  proof -
    fix e :: email
    let ?s = "toLowerCase (or_empty (subject e))"
    let ?ok = "\<lambda>core. \<not> prefix (js ''re:'') core \<and> \<not> prefix (js ''fwd:'') core
               \<and> \<not> prefix (js ''fw:'') core
               \<and> (\<exists>keyword \<in> set keywords. sublist (toLowerCase keyword) core)"
    have code: "isLeaveRequest toLowerCase keywords e = ?ok (trim ?s)"
      by (auto simp: isLeaveRequest_def Let_def matchesReplyOrForward_def list_ex_iff)
    show "isLeaveRequest toLowerCase keywords e =
      (\<exists>lead core trail. ?s = lead @ core @ trail
               \<and> (\<forall>c \<in> set lead. isWhiteSpace c) \<and> (\<forall>c \<in> set trail. isWhiteSpace c)
               \<and> (core = [] \<or> (\<not> isWhiteSpace (hd core) \<and> \<not> isWhiteSpace (last core)))
               \<and> \<not> prefix (js ''re:'') core \<and> \<not> prefix (js ''fwd:'') core
               \<and> \<not> prefix (js ''fw:'') core
               \<and> (\<exists>keyword \<in> set keywords. sublist (toLowerCase keyword) core))"
    proof
      assume "isLeaveRequest toLowerCase keywords e"
      then have ok: "?ok (trim ?s)" unfolding code .
      from trim_exists [of ?s] obtain lead trail where
        "?s = lead @ trim ?s @ trail" "\<forall>c \<in> set lead. isWhiteSpace c"
        "\<forall>c \<in> set trail. isWhiteSpace c"
        "trim ?s = [] \<or> (\<not> isWhiteSpace (hd (trim ?s)) \<and> \<not> isWhiteSpace (last (trim ?s)))"
        by blast
      with ok show "\<exists>lead core trail. ?s = lead @ core @ trail
               \<and> (\<forall>c \<in> set lead. isWhiteSpace c) \<and> (\<forall>c \<in> set trail. isWhiteSpace c)
               \<and> (core = [] \<or> (\<not> isWhiteSpace (hd core) \<and> \<not> isWhiteSpace (last core)))
               \<and> \<not> prefix (js ''re:'') core \<and> \<not> prefix (js ''fwd:'') core
               \<and> \<not> prefix (js ''fw:'') core
               \<and> (\<exists>keyword \<in> set keywords. sublist (toLowerCase keyword) core)"
        by blast
    next
      assume "\<exists>lead core trail. ?s = lead @ core @ trail
               \<and> (\<forall>c \<in> set lead. isWhiteSpace c) \<and> (\<forall>c \<in> set trail. isWhiteSpace c)
               \<and> (core = [] \<or> (\<not> isWhiteSpace (hd core) \<and> \<not> isWhiteSpace (last core)))
               \<and> \<not> prefix (js ''re:'') core \<and> \<not> prefix (js ''fwd:'') core
               \<and> \<not> prefix (js ''fw:'') core
               \<and> (\<exists>keyword \<in> set keywords. sublist (toLowerCase keyword) core)"
      then obtain lead core trail where
        d: "?s = lead @ core @ trail" "\<forall>c \<in> set lead. isWhiteSpace c"
           "\<forall>c \<in> set trail. isWhiteSpace c"
           "core = [] \<or> (\<not> isWhiteSpace (hd core) \<and> \<not> isWhiteSpace (last core))"
        and ok: "?ok core"
        by blast
      from d have tc: "trim ?s = core" by (rule trim_unique)
      from ok have "?ok (trim ?s)" unfolding tc .
      then show "isLeaveRequest toLowerCase keywords e" unfolding code .
    qed
  qed
  show "classify toLowerCase keywords emails =
     filter (\<lambda>e. \<exists>lead core trail.
               toLowerCase (or_empty (subject e)) = lead @ core @ trail
               \<and> (\<forall>c \<in> set lead. isWhiteSpace c) \<and> (\<forall>c \<in> set trail. isWhiteSpace c)
               \<and> (core = [] \<or> (\<not> isWhiteSpace (hd core) \<and> \<not> isWhiteSpace (last core)))
               \<and> \<not> prefix (js ''re:'') core \<and> \<not> prefix (js ''fwd:'') core
               \<and> \<not> prefix (js ''fw:'') core
               \<and> (\<exists>keyword \<in> set keywords. sublist (toLowerCase keyword) core))
       emails"
    unfolding classify_filter by (rule filter_cong) (simp_all only: keep)
next
  show "\<forall>e \<in> set emails.
        (\<exists>lead marker rest. toLowerCase (or_empty (subject e)) = lead @ marker @ rest
            \<and> (\<forall>c \<in> set lead. isWhiteSpace c)
            \<and> (marker = js ''re:'' \<or> marker = js ''fwd:'' \<or> marker = js ''fw:''))
        \<longrightarrow> e \<notin> set (classify toLowerCase keywords emails)"
  proof (intro ballI impI)
    fix e :: email
    assume "\<exists>lead marker rest. toLowerCase (or_empty (subject e)) = lead @ marker @ rest
            \<and> (\<forall>c \<in> set lead. isWhiteSpace c)
            \<and> (marker = js ''re:'' \<or> marker = js ''fwd:'' \<or> marker = js ''fw:'')"
    then obtain lead marker rest where
      d: "toLowerCase (or_empty (subject e)) = lead @ marker @ rest"
         "\<forall>c \<in> set lead. isWhiteSpace c"
      and m: "marker = js ''re:'' \<or> marker = js ''fwd:'' \<or> marker = js ''fw:''"
      by blast
    have "\<forall>c \<in> set marker. \<not> isWhiteSpace c"
      using m markers_not_space by blast
    with d(2) have "prefix marker (trim (lead @ marker @ rest))"
      by (rule trim_keeps_marker)
    with m have "matchesReplyOrForward (trim (toLowerCase (or_empty (subject e))))"
      unfolding matchesReplyOrForward_def d(1) by blast
    then show "e \<notin> set (classify toLowerCase keywords emails)"
      by (simp add: classify_filter isLeaveRequest_def)
  qed
next
  show "toLowerCase [] = [] \<and> (\<forall>keyword \<in> set keywords. toLowerCase keyword \<noteq> []) \<longrightarrow>
        (\<forall>e \<in> set emails. subject e = None \<or> subject e = Some []
           \<longrightarrow> e \<notin> set (classify toLowerCase keywords emails))"
  proof (intro impI ballI)
    fix e :: email
    assume k: "toLowerCase [] = [] \<and> (\<forall>keyword \<in> set keywords. toLowerCase keyword \<noteq> [])"
      and "subject e = None \<or> subject e = Some []"
    then have "trim (toLowerCase (or_empty (subject e))) = []"
      by (auto simp: or_empty_def trim_def)
    with k have "\<not> isLeaveRequest toLowerCase keywords e"
      by (simp add: isLeaveRequest_def list_ex_iff matchesReplyOrForward_def)
    then show "e \<notin> set (classify toLowerCase keywords emails)"
      by (simp add: classify_filter)
  qed
qed

theorem classify_spec_witness:
  "classify exampleToLowerCase [js ''leave request''] [ex_original, ex_reply, ex_no_subject]
     = [ex_original]"
proof -
  let ?kw = "[js ''leave request'']"
  let ?out = "classify exampleToLowerCase ?kw [ex_original, ex_reply, ex_no_subject]"
  let ?Q = "\<lambda>e. \<exists>lead core trail.
               exampleToLowerCase (or_empty (subject e)) = lead @ core @ trail
               \<and> (\<forall>c \<in> set lead. isWhiteSpace c) \<and> (\<forall>c \<in> set trail. isWhiteSpace c)
               \<and> (core = [] \<or> (\<not> isWhiteSpace (hd core) \<and> \<not> isWhiteSpace (last core)))
               \<and> \<not> prefix (js ''re:'') core \<and> \<not> prefix (js ''fwd:'') core
               \<and> \<not> prefix (js ''fw:'') core
               \<and> (\<exists>keyword \<in> set ?kw. sublist (exampleToLowerCase keyword) core)"
  note spec = classify_spec [of exampleToLowerCase ?kw "[ex_original, ex_reply, ex_no_subject]"]
  have mem: "ex_reply \<in> set [ex_original, ex_reply, ex_no_subject]"
    "ex_no_subject \<in> set [ex_original, ex_reply, ex_no_subject]"
    by simp_all
  have k: "exampleToLowerCase [] = [] \<and> (\<forall>keyword \<in> set ?kw. exampleToLowerCase keyword \<noteq> [])"
    using ex_subjects(3,10) by (simp add: js_def)
  from spec have f: "?out = filter ?Q [ex_original, ex_reply, ex_no_subject]"
    by (rule conjunct1)
  have "\<exists>lead marker rest. exampleToLowerCase (or_empty (subject ex_reply)) = lead @ marker @ rest
            \<and> (\<forall>c \<in> set lead. isWhiteSpace c)
            \<and> (marker = js ''re:'' \<or> marker = js ''fwd:'' \<or> marker = js ''fw:'')"
    by (intro exI [of _ "[]"] exI [of _ "js ''re:''"] exI [of _ "js '' leave request - john''"])
       (simp add: ex_subjects(2))
  with spec mem(1) have "ex_reply \<notin> set ?out" by blast
  then have nr: "\<not> ?Q ex_reply"
    using mem(1) unfolding f set_filter by blast
  have "subject ex_no_subject = None" by (simp add: ex_no_subject_def)
  with spec mem(2) k have "ex_no_subject \<notin> set ?out" by blast
  then have nn: "\<not> ?Q ex_no_subject"
    using mem(2) unfolding f set_filter by blast
  have yo: "?Q ex_original"
    by (intro exI [of _ "[]"] exI [of _ "js ''leave request - john''"])
       (simp add: ex_subjects)
  show ?thesis
    unfolding f using nr nn yo by simp
qed

text \<open>With an empty keyword, which a trailing comma in the keyword setting produces, a
  message without a subject is kept.\<close>

theorem classify_empty_subject_counterexample:
  "subject ex_no_subject = None
   \<and> classify exampleToLowerCase [js ''''] [ex_no_subject] = [ex_no_subject]"
  by (simp add: ex_no_subject_def isLeaveRequest_def or_empty_def exampleToLowerCase_def trim_def
      matchesReplyOrForward_def js_def)

subsection \<open>Pruning of push tokens\<close>

text \<open>
  C5. When the service is initialised, the registry is not empty and the multicast call
  returns a batch response with one result per token sent and a failure count that counts
  the failed results, \<^verbatim>\<open>sendNotification\<close> returns true with the registry being the old
  one, in order, without the tokens whose result failed.
\<close>

theorem sendNotification_prunes:
  assumes init: "initialized fs" and ne: "fcmTokens fs \<noteq> []"
    and send: "sendMulticast (fcmTokens fs) = Some response"
    and len: "length (responses response) = length (fcmTokens fs)"
    and cnt: "failureCount response = length (filter (\<lambda>success. \<not> success) (responses response))"
  shows "sendNotification sendMulticast fs =
           (True, fs\<lparr>fcmTokens :=
              filter (\<lambda>t. t \<notin> failedTokens (fcmTokens fs) (responses response)) (fcmTokens fs)\<rparr>)
    \<and> set (fcmTokens (snd (sendNotification sendMulticast fs)))
        = set (fcmTokens fs) - failedTokens (fcmTokens fs) (responses response)"
proof -
  let ?tokens = "fcmTokens fs" and ?resps = "responses response"
  have pruned: "pruneLoop ?tokens 0 ?resps ?tokens
      = (True, filter (\<lambda>t. t \<notin> failedTokens ?tokens ?resps) ?tokens)"
    using pruneLoop_result [of 0 ?resps ?tokens ?tokens] len by simp
  have eq: "sendNotification sendMulticast fs =
           (True, fs\<lparr>fcmTokens := filter (\<lambda>t. t \<notin> failedTokens ?tokens ?resps) ?tokens\<rparr>)"
  proof (cases "failureCount response > 0")
    case True
    then show ?thesis
      using init ne send pruned by (simp add: sendNotification_def Let_def)
  next
    case False
    then have "filter (\<lambda>success. \<not> success) ?resps = []" using cnt by simp
    then have all: "\<forall>success \<in> set ?resps. success" by (simp add: filter_empty_conv)
    have "filter (\<lambda>(token, success). \<not> success) (zip ?tokens ?resps) = []"
      unfolding filter_empty_conv using all by (auto dest: set_zip_rightD)
    then have "failedTokens ?tokens ?resps = {}"
      by (simp add: failedTokens_def)
    then show ?thesis
      using False init ne send by (simp add: sendNotification_def Let_def)
  qed
  show ?thesis
    unfolding eq by auto
qed

theorem sendNotification_prunes_witness:
  "fcmTokens (snd (sendNotification ex_multicast ex_tokens)) = [''A'', ''C'']
   \<and> set (fcmTokens (snd (sendNotification ex_multicast ex_tokens))) = {''A'', ''C''}
   \<and> fst (sendNotification ex_multicast ex_tokens)"
  using sendNotification_prunes [of ex_tokens ex_multicast
      "\<lparr>responses = [True, False, True], successCount = 2, failureCount = 1\<rparr>"]
  by (simp add: ex_tokens_def ex_multicast_def failedTokens_def)

subsection \<open>Recent-history buffer of the web channel\<close>

text \<open>
  C7, as amended. In web mode the buffer \<^verbatim>\<open>webNotifications\<close> keeps every record ever
  dispatched, in order: it grows by one with each leave-request alert and each summary
  with a count other than 0, and nothing is removed. What is bounded is the view: for
  every limit of at least 1 (10 by default), \<^verbatim>\<open>getRecentNotifications\<close> returns the last
  \<open>min limit size\<close> records of the buffer.
\<close>

theorem recent_notifications_bounded:
  "(isProduction ns \<longrightarrow>
      webNotifications (dispatchAll b calls ns)
        = webNotifications ns @ map recordOf (filter emitsRecord calls)
      \<and> length (webNotifications (dispatchAll b calls ns))
        = length (webNotifications ns) + length (filter emitsRecord calls))
   \<and> (0 < limit \<longrightarrow>
        length (getRecentNotifications ns limit) = min (nat limit) (length (webNotifications ns))
        \<and> suffix (getRecentNotifications ns limit) (webNotifications ns))"
proof (intro conjI impI)
  assume p: "isProduction ns"
  from dispatchAll_production [OF p]
  show "webNotifications (dispatchAll b calls ns)
        = webNotifications ns @ map recordOf (filter emitsRecord calls)" by blast
  then show "length (webNotifications (dispatchAll b calls ns))
        = length (webNotifications ns) + length (filter emitsRecord calls)" by simp
next
  assume l: "0 < limit"
  show "length (getRecentNotifications ns limit) = min (nat limit) (length (webNotifications ns))"
    using l by (auto simp: getRecentNotifications_def slice_recent)
  show "suffix (getRecentNotifications ns limit) (webNotifications ns)"
    using l by (simp add: getRecentNotifications_def slice_recent suffix_drop)
qed


theorem recent_notifications_bounded_witness:
  "length (webNotifications (dispatchAll ex_backend ex_calls ex_web_service)) = 2
   \<and> length (getRecentNotifications (dispatchAll ex_backend ex_calls ex_web_service) 1) = 1
   \<and> suffix (getRecentNotifications (dispatchAll ex_backend ex_calls ex_web_service) 1)
        (webNotifications (dispatchAll ex_backend ex_calls ex_web_service))"
proof -
  have p: "isProduction ex_web_service" "webNotifications ex_web_service = []"
    by (simp_all add: ex_web_service_def)
  have n: "length (filter emitsRecord ex_calls) = 2"
    by (simp add: ex_calls_def)
  have 1: "length (webNotifications (dispatchAll ex_backend ex_calls ex_web_service)) = 2"
    using recent_notifications_bounded [of ex_web_service ex_backend ex_calls 1] p n by simp
  show ?thesis
    using recent_notifications_bounded
      [of "dispatchAll ex_backend ex_calls ex_web_service" ex_backend "[]" 1] 1
    by simp
qed

text \<open>Eleven alerts leave eleven records in the buffer, more than the default
  capacity of 10.\<close>

theorem web_buffer_unbounded_counterexample:
  "length (webNotifications
      (dispatchAll ex_backend (replicate 11 (Pending ex_original 72)) ex_web_service)) = 11
   \<and> \<not> length (webNotifications
      (dispatchAll ex_backend (replicate 11 (Pending ex_original 72)) ex_web_service)) \<le> 10"
proof -
  have p: "isProduction ex_web_service" "webNotifications ex_web_service = []"
    by (simp_all add: ex_web_service_def)
  from dispatchAll_production [OF p(1), of ex_backend "replicate 11 (Pending ex_original 72)"]
  have "length (webNotifications
      (dispatchAll ex_backend (replicate 11 (Pending ex_original 72)) ex_web_service)) = 11"
    by (simp add: p(2) filter_emits_replicate)
  then show ?thesis by simp
qed

subsection \<open>At-most-once alerting\<close>




subsection \<open>Errors during a scan\<close>

text \<open>
  C3, as amended. An error thrown by \<^verbatim>\<open>initialize\<close> leaves \<^verbatim>\<open>runOnce\<close> as a thrown error,
  with the agent unchanged. Once \<^verbatim>\<open>initialize\<close> has succeeded \<^verbatim>\<open>runOnce\<close> always returns
  the summary. An error thrown by the search is caught and its message, behind the prefix
  \<^verbatim>\<open>Error during agent execution: \<close>, is the one entry of \<^verbatim>\<open>errors\<close>. An error thrown
  while a candidate is evaluated is caught in the same way, and it ends the scan: the
  resolver call that threw is the last thing the scan does, no alert is dispatched and
  \<^verbatim>\<open>notifications_sent\<close> is 0.
\<close>

theorem runOnce_error_handling:
  "(authenticate w = Some msg \<longrightarrow> runOnce w T a = (Inl msg, a, []))
   \<and> (authenticate w = None \<longrightarrow> (\<exists>res. fst (runOnce w T a) = Inr res))
   \<and> (authenticate w = None \<and> findLeaveRequests_call w (daysBack T) = Inl msg
        \<longrightarrow> runOnce w T a = (Inr (results0\<lparr>errors := [errorMsg msg]\<rparr>), a, []))
   \<and> (runOnce w T a = (out, a', evs) \<and> CheckForReply r \<in> set evs
        \<and> checkForReply_call w r = Inl msg
        \<longrightarrow> (\<exists>res. out = Inr res \<and> errors res = [errorMsg msg] \<and> notifications_sent res = 0)
            \<and> last evs = CheckForReply r \<and> alerted evs = [])"
proof (intro conjI impI)
  assume "authenticate w = Some msg"
  then show "runOnce w T a = (Inl msg, a, [])" by (simp add: runOnce_def)
next
  assume "authenticate w = None"
  then show "\<exists>res. fst (runOnce w T a) = Inr res"
    by (cases rule: runOnce_cases [of w T a]) simp_all
next
  assume "authenticate w = None \<and> findLeaveRequests_call w (daysBack T) = Inl msg"
  then show "runOnce w T a = (Inr (results0\<lparr>errors := [errorMsg msg]\<rparr>), a, [])"
    by (simp add: runOnce_def)
next
  assume h: "runOnce w T a = (out, a', evs) \<and> CheckForReply r \<in> set evs
        \<and> checkForReply_call w r = Inl msg"
  then have "(\<exists>res. out = Inr res \<and> errors res = [errorMsg msg] \<and> notifications_sent res = 0)
    \<and> last evs = CheckForReply r \<and> alerted evs = []"
    by (intro runOnce_resolver_error) blast+
  then show "\<exists>res. out = Inr res \<and> errors res = [errorMsg msg] \<and> notifications_sent res = 0"
    "last evs = CheckForReply r" "alerted evs = []"
    by blast+
qed

theorem runOnce_error_handling_witness:
  "authenticate ex_unauthenticated = Some ''Gmail credentials file not found''
   \<and> runOnce ex_unauthenticated 48 ex_agent
        = (Inl ''Gmail credentials file not found'', ex_agent, [])
   \<and> checkForReply_call ex_throwing ex_original = Inl ''quota exceeded''
   \<and> runOnce ex_throwing 48 ex_agent =
     (Inr \<lparr>checked_requests = 2, pending_requests = 0, notifications_sent = 0,
            errors = [''Error during agent execution: quota exceeded'']\<rparr>,
      ex_agent, [CheckForReply ex_original])
   \<and> last [CheckForReply ex_original] = CheckForReply ex_original
   \<and> alerted [CheckForReply ex_original] = []"
  using runOnce_error_handling [of ex_unauthenticated "''Gmail credentials file not found''"
      48 ex_agent]
    runOnce_error_handling [of ex_throwing "''quota exceeded''" 48 ex_agent
      "Inr \<lparr>checked_requests = 2, pending_requests = 0, notifications_sent = 0,
            errors = [''Error during agent execution: quota exceeded'']\<rparr>"
      ex_agent "[CheckForReply ex_original]" ex_original]
    ex_throwing_facts ex_run_throwing
  by simp

text \<open>
  The resolver throws on the first of two overdue requests: the second, which has no
  reply, is neither evaluated nor notified. And with failing authentication \<^verbatim>\<open>runOnce\<close>
  throws instead of returning a summary.
\<close>

theorem runOnce_aborts_counterexample:
  "checkForReply_call ex_throwing ex_original = Inl ''quota exceeded''
   \<and> checkForReply_call ex_throwing ex_second = Inr False
   \<and> \<not> getEmailAgeHours (clock_eval ex_throwing ex_second) ex_second < real_of_int 48
   \<and> findLeaveRequests_call ex_throwing (daysBack 48) = Inr [ex_original, ex_second]
   \<and> runOnce ex_throwing 48 ex_agent =
     (Inr \<lparr>checked_requests = 2, pending_requests = 0, notifications_sent = 0,
            errors = [''Error during agent execution: quota exceeded'']\<rparr>,
      ex_agent, [CheckForReply ex_original])
   \<and> runOnce ex_unauthenticated 48 ex_agent
        = (Inl ''Gmail credentials file not found'', ex_agent, [])"
  using ex_throwing_facts ex_run_throwing ex_run_unauthenticated
  by (simp add: ex_throwing_def)

subsection \<open>Grace period\<close>




subsection \<open>What notifications-sent counts\<close>

text \<open>
  C10. In a run that returns without an error, \<^verbatim>\<open>notifications_sent\<close> equals
  \<^verbatim>\<open>pending_requests\<close>, the number of alerts dispatched, and the id of every alerted
  candidate is in the processed set afterwards, whichever boolean
  \<^verbatim>\<open>notifyPendingLeaveRequest\<close> returned.
\<close>

theorem notifications_sent_counts_attempts:
  assumes run: "runOnce w T a = (Inr res, a', evs)" and ok: "errors res = []"
  shows "notifications_sent res = pending_requests res
    \<and> pending_requests res = length (alerted evs)
    \<and> (\<forall>r sent. NotifyPending r sent \<in> set evs \<longrightarrow> msg_id r \<in> processedRequests a')"
proof -
  note f = runOnce_log [OF run]
  from f have "notifications_sent res = length (alerted evs)" by blast
  moreover from f ok have "pending_requests res = length (alerted evs)" by blast
  moreover from f have "\<forall>r \<in> set (alerted evs). msg_id r \<in> processedRequests a'" by blast
  then have "\<forall>r sent. NotifyPending r sent \<in> set evs \<longrightarrow> msg_id r \<in> processedRequests a'"
    by (auto simp: alerted_set)
  ultimately show ?thesis by simp
qed

theorem notifications_sent_counts_attempts_witness:
  "runOnce (ex_world ex_thread_alone 262800000) 48 ex_agent =
     (Inr \<lparr>checked_requests = 1, pending_requests = 1, notifications_sent = 1, errors = []\<rparr>,
      ex_agent\<lparr>processedRequests := {''m1''}\<rparr>,
      [CheckForReply ex_original, NotifyPending ex_original False, MarkProcessed ''m1'',
       NotifySummary 1])
   \<and> NotifyPending ex_original False
       \<in> set [CheckForReply ex_original, NotifyPending ex_original False, MarkProcessed ''m1'',
               NotifySummary 1]
   \<and> msg_id ex_original \<in> processedRequests (ex_agent\<lparr>processedRequests := {''m1''}\<rparr>)
   \<and> notifications_sent
        \<lparr>checked_requests = 1, pending_requests = 1, notifications_sent = 1, errors = []\<rparr>
      = pending_requests
        \<lparr>checked_requests = 1, pending_requests = 1, notifications_sent = 1, errors = []\<rparr>"
  using notifications_sent_counts_attempts [OF ex_run_alone] ex_run_alone
  by (simp add: ex_original_id)


subsection \<open>Age of a message\<close>

text \<open>
  C8. \<^verbatim>\<open>getEmailAgeHours\<close> returns \<open>(now - internal_date)\<close> in hours, as a fraction that is
  not rounded to whole hours, and exactly 0 when \<^verbatim>\<open>internal_date\<close> is 0 or absent; a
  message with an unknown timestamp is therefore younger than every positive timeout.
\<close>

theorem getEmailAgeHours_spec:
  "(internal_date e = Some d \<and> d \<noteq> 0 \<longrightarrow>
      getEmailAgeHours now e = real_of_int (now - d) / 3600000)
   \<and> (internal_date e = None \<or> internal_date e = Some 0 \<longrightarrow>
      getEmailAgeHours now e = 0
      \<and> (\<forall>replyTimeoutHours::int. 0 < replyTimeoutHours \<longrightarrow>
            getEmailAgeHours now e < real_of_int replyTimeoutHours))"
  by (auto simp: getEmailAgeHours_def parse_date_def)

theorem getEmailAgeHours_spec_witness:
  "getEmailAgeHours 5400000
     \<lparr>msg_id = ''m1'', thread_id = Some ''t1'', snippet = [], internal_date = Some 1800000,
      msg_from = None, msg_to = None, subject = None, date = None, body = []\<rparr> = 1
   \<and> getEmailAgeHours 5400000
     \<lparr>msg_id = ''m2'', thread_id = Some ''t1'', snippet = [], internal_date = None,
      msg_from = None, msg_to = None, subject = None, date = None, body = []\<rparr> = 0
   \<and> getEmailAgeHours 5400000
     \<lparr>msg_id = ''m2'', thread_id = Some ''t1'', snippet = [], internal_date = None,
      msg_from = None, msg_to = None, subject = None, date = None, body = []\<rparr> < real_of_int 1"
  using getEmailAgeHours_spec [of
      "\<lparr>msg_id = ''m1'', thread_id = Some ''t1'', snippet = [], internal_date = Some 1800000,
        msg_from = None, msg_to = None, subject = None, date = None, body = []\<rparr>"
      1800000 5400000]
    getEmailAgeHours_spec [of
      "\<lparr>msg_id = ''m2'', thread_id = Some ''t1'', snippet = [], internal_date = None,
        msg_from = None, msg_to = None, subject = None, date = None, body = []\<rparr>"
      0 5400000]
  by simp

subsection \<open>Lookback window covers the timeout\<close>

text \<open>
  C9. The scan window is \<open>max(7, ceil(replyTimeoutHours / 24) + 1)\<close> days, and in hours
  it is at least \<open>replyTimeoutHours\<close>, for every integer timeout.
\<close>

theorem daysBack_covers_timeout:
  "daysBack replyTimeoutHours = max 7 (\<lceil>real_of_int replyTimeoutHours / 24\<rceil> + 1)
   \<and> replyTimeoutHours \<le> daysBack replyTimeoutHours * 24"
proof -
  have "real_of_int replyTimeoutHours / 24 \<le> real_of_int \<lceil>real_of_int replyTimeoutHours / 24\<rceil>"
    by (rule le_of_int_ceiling)
  then have "real_of_int replyTimeoutHours
      \<le> real_of_int (\<lceil>real_of_int replyTimeoutHours / 24\<rceil> * 24)"
    by (simp only: of_int_mult of_int_numeral)
  then have "replyTimeoutHours \<le> \<lceil>real_of_int replyTimeoutHours / 24\<rceil> * 24"
    by (simp only: of_int_le_iff)
  then show ?thesis
    by (simp add: daysBack_def max_def)
qed

end
